theory Spec2Isabelle
  imports Main "HOL-Library.AList"
begin

section \<open>JavaScript values, objects and the heap\<close>

text \<open>
  The stores of rellx hold arbitrary JavaScript values and compare them both by
  reference (\<open>===\<close>) and by structure (\<open>deepEqual\<close>), and the reactive store
  mutates shared objects through \<open>Proxy\<close> traps.  The model therefore keeps an
  explicit heap: an object is an address, \<open>===\<close> on objects is equality of
  addresses, and every operation takes the store and returns it updated.

  Scope of the model: property keys are strings (no symbols); numbers are the
  integers and \<open>NaN\<close>; objects are ordinary objects and arrays with own data
  properties, enumerated in insertion order (integer-like keys of an object
  are not moved to the front), extensible or made non-extensible, sealed or
  frozen as a whole.  Reading an inherited member of
  \<open>Object.prototype\<close> or \<open>Array.prototype\<close> other than \<open>length\<close> and the
  seven mutating array methods yields the error \<open>Unmodelled\<close>, so that no
  theorem silently covers a case the model does not describe.  Listeners and
  plugin hooks are functions of their arguments that return or throw; they do
  not call back into the store.
\<close>

type_synonym addr = nat

datatype array_method = Push | Pop | Shift | Unshift | Splice | Sort | Reverse

datatype jsval =
    VUndef
  | VNull
  | VBool bool
  | VNum int
  | VNaN
  | VStr string
  | VRef addr
  | VBuiltin array_method  \<comment> \<open>the function object \<open>Array.prototype.m\<close>\<close>

datatype handler = RootHandler | NestedHandler

text \<open>
  The integrity of an object: \<open>Object.preventExtensions\<close> forbids adding a
  property to it, \<open>Object.seal\<close> also deleting one, and \<open>Object.freeze\<close>
  also writing one.
\<close>

datatype integrity = Extensible | NonExtensible | Sealed | Frozen

record pobj =
  is_array :: bool
  len :: nat                             \<comment> \<open>\<open>length\<close> of an array, unused otherwise\<close>
  props :: "(string \<times> jsval) list"      \<comment> \<open>own enumerable properties, in insertion order\<close>
  integrity :: integrity

datatype jsobj =
    Plain pobj
  | ProxyObj addr handler    \<comment> \<open>\<open>new Proxy(target, handler)\<close>\<close>
  | Closure addr jsval       \<comment> \<open>the arrow function returned by the nested get trap: target and original method\<close>
  | StoreObj                 \<comment> \<open>the store instance itself (returned for \<open>__store\<close>)\<close>

datatype error =
    StateInvalid             \<comment> \<open>\<open>new Error('State cannot be null or undefined')\<close>\<close>
  | TypeError
  | RangeError               \<comment> \<open>call stack exhausted, or an invalid array length\<close>
  | Thrown string            \<comment> \<open>an exception thrown by a callback of the caller\<close>
  | Unmodelled

datatype event =
    ListenerCall nat jsval
  | BeforeUpdate nat jsval jsval
  | AfterUpdate nat jsval jsval
  | OnInit nat
  | OnSubscribe nat nat
  | Teardown nat
  | OnDestroy nat

datatype log_entry = LogError string error | LogInfo string jsval

text \<open>
  A listener is a callback \<open>(state) => void\<close>.  The model records each call in
  the trace of the store; the callback itself either returns or throws.  A
  plugin is an object whose hooks are all optional; the hooks are functions of
  their arguments.
\<close>

record listener =
  lid :: nat
  lthrows :: "jsval \<Rightarrow> error option"

record plugin =
  pid :: nat
  onInit :: "error option option"
  onBeforeUpdate :: "(jsval \<Rightarrow> jsval \<Rightarrow> error + jsval) option"
  onAfterUpdate :: "(jsval \<Rightarrow> jsval \<Rightarrow> error option) option"
  onSubscribe :: "(nat \<Rightarrow> error + bool) option"
  onDestroy :: "error option option"

text \<open>
  The fields of \<open>StoreCore\<close> (\<open>state\<close>, \<open>listeners\<close>, \<open>plugins\<close>) and of its
  subclass \<open>ReactiveStore\<close> (\<open>reactiveState\<close>, \<open>proxyCache\<close>), together with the
  heap they live in, what was printed on the console, the calls received by
  listeners and hooks, and the depth of the call stack of the engine.
\<close>

record store =
  heap :: "jsobj list"
  self :: addr
  state :: jsval
  listeners :: "listener list"
  plugins :: "plugin list"
  reactiveState :: jsval
  proxyCache :: "addr \<rightharpoonup> addr"
  trace :: "event list"
  console :: "log_entry list"
  stack_limit :: nat

type_synonym 'a js = "store \<Rightarrow> (error + 'a) \<times> store"

definition andThen :: "'a js \<Rightarrow> ('a \<Rightarrow> 'b js) \<Rightarrow> 'b js" where
  "andThen m f = (\<lambda>s. case m s of (Inl e, s') \<Rightarrow> (Inl e, s') | (Inr v, s') \<Rightarrow> f v s')"


definition throw :: "error \<Rightarrow> 'a js" where
  "throw e = (\<lambda>s. (Inl e, s))"

definition console_error :: "string \<Rightarrow> error \<Rightarrow> store \<Rightarrow> store" where
  "console_error msg e s = s\<lparr>console := console s @ [LogError msg e]\<rparr>"

definition console_log :: "string \<Rightarrow> jsval \<Rightarrow> store \<Rightarrow> store" where
  "console_log msg v s = s\<lparr>console := console s @ [LogInfo msg v]\<rparr>"

definition obj_at :: "store \<Rightarrow> addr \<Rightarrow> jsobj option" where
  "obj_at s a = (if a < length (heap s) then Some (heap s ! a) else None)"

definition alloc :: "jsobj \<Rightarrow> store \<Rightarrow> addr \<times> store" where
  "alloc ob s = (length (heap s), s\<lparr>heap := heap s @ [ob]\<rparr>)"

definition put_obj :: "addr \<Rightarrow> jsobj \<Rightarrow> store \<Rightarrow> store" where
  "put_obj a ob s = s\<lparr>heap := (heap s)[a := ob]\<rparr>"

subsection \<open>Property keys\<close>

definition is_digit :: "char \<Rightarrow> bool" where
  "is_digit c = (48 \<le> (of_char c :: nat) \<and> (of_char c :: nat) \<le> 57)"

definition digit_val :: "char \<Rightarrow> nat" where
  "digit_val c = (of_char c :: nat) - 48"

definition nat_of_digits :: "string \<Rightarrow> nat" where
  "nat_of_digits ds = foldl (\<lambda>n c. 10 * n + digit_val c) 0 ds"

fun string_of_nat :: "nat \<Rightarrow> string" where
  "string_of_nat n =
     (if n < 10 then [''0123456789'' ! n]
      else string_of_nat (n div 10) @ [''0123456789'' ! (n mod 10)])"

declare string_of_nat.simps [simp del]

text \<open>
  A key is an array index when it is the canonical decimal form of an integer
  below \<open>2^32 - 1\<close>.
\<close>

definition index_of_key :: "string \<Rightarrow> nat option" where
  "index_of_key k =
     (if k \<noteq> [] \<and> list_all is_digit k \<and> (k = ''0'' \<or> hd k \<noteq> CHR ''0'')
         \<and> int (nat_of_digits k) < 4294967295
      then Some (nat_of_digits k) else None)"

definition method_of_name :: "string \<Rightarrow> array_method option" where
  "method_of_name k =
     (if k = ''push'' then Some Push
      else if k = ''pop'' then Some Pop
      else if k = ''shift'' then Some Shift
      else if k = ''unshift'' then Some Unshift
      else if k = ''splice'' then Some Splice
      else if k = ''sort'' then Some Sort
      else if k = ''reverse'' then Some Reverse
      else None)"

definition is_method :: "string \<Rightarrow> bool" where
  "is_method k = (case method_of_name k of Some m \<Rightarrow> True | None \<Rightarrow> False)"

definition object_proto_names :: "string list" where
  "object_proto_names =
     [''constructor'', ''toString'', ''toLocaleString'', ''valueOf'', ''hasOwnProperty'',
      ''isPrototypeOf'', ''propertyIsEnumerable'', ''__proto__'', ''__defineGetter__'',
      ''__defineSetter__'', ''__lookupGetter__'', ''__lookupSetter__'']"

definition array_proto_names :: "string list" where
  "array_proto_names =
     [''at'', ''concat'', ''copyWithin'', ''entries'', ''every'', ''fill'', ''filter'',
      ''find'', ''findIndex'', ''findLast'', ''findLastIndex'', ''flat'', ''flatMap'',
      ''forEach'', ''includes'', ''indexOf'', ''join'', ''keys'', ''lastIndexOf'', ''map'',
      ''reduce'', ''reduceRight'', ''slice'', ''some'', ''toReversed'', ''toSorted'',
      ''toSpliced'', ''values'', ''with'']"

text \<open>What a key that is not an own property resolves to along the prototype chain.\<close>

definition inherited :: "pobj \<Rightarrow> string \<Rightarrow> error + jsval" where
  "inherited ob k =
     (case (if is_array ob then method_of_name k else None) of
        Some m \<Rightarrow> Inr (VBuiltin m)
      | None \<Rightarrow>
          (if is_array ob \<and> k \<in> set array_proto_names then Inl Unmodelled
           else if k \<in> set object_proto_names then Inl Unmodelled
           else Inr VUndef))"

subsection \<open>Ordinary property access on a target object\<close>

text \<open>\<open>target[prop]\<close> on an object that is not a proxy.\<close>

definition raw_get :: "store \<Rightarrow> addr \<Rightarrow> string \<Rightarrow> error + jsval" where
  "raw_get s a k =
     (case obj_at s a of
        Some (Plain ob) \<Rightarrow>
          (if is_array ob \<and> k = ''length'' then Inr (VNum (int (len ob)))
           else case map_of (props ob) k of
                  Some v \<Rightarrow> Inr v
                | None \<Rightarrow> inherited ob k)
      | Some StoreObj \<Rightarrow> (if k = ''__isReactive'' then Inr VUndef else Inl Unmodelled)
      | _ \<Rightarrow> Inl Unmodelled)"

text \<open>
  \<open>target[prop] = v\<close> on an object that is not a proxy, in strict code (class
  bodies are strict), where an assignment that fails throws a \<open>TypeError\<close>:
  every assignment to a frozen object, and on a non-extensible or sealed
  object the assignment to a key that is not an own property.  On an array, a
  write to an index at or beyond \<open>length\<close> extends it, and a write to
  \<open>length\<close> removes the elements at or beyond the new length; on a sealed
  array the first of these removals fails, \<open>length\<close> becomes the greatest
  index plus one and the assignment throws.
\<close>

definition keep_below :: "nat \<Rightarrow> (string \<times> jsval) list \<Rightarrow> (string \<times> jsval) list" where
  "keep_below n ps =
     filter (\<lambda>p. case index_of_key (fst p) of None \<Rightarrow> True | Some i \<Rightarrow> i < n) ps"

definition top_index :: "(string \<times> jsval) list \<Rightarrow> nat" where
  "top_index ps =
     foldr (\<lambda>p m. case index_of_key (fst p) of None \<Rightarrow> m | Some i \<Rightarrow> max m (Suc i)) ps 0"

definition raw_set :: "addr \<Rightarrow> string \<Rightarrow> jsval \<Rightarrow> unit js" where
  "raw_set a k v s =
     (case obj_at s a of
        Some (Plain ob) \<Rightarrow>
          (if integrity ob = Frozen then (Inl TypeError, s)
           else if is_array ob \<and> k = ''length'' then
             (case v of
                VNum n \<Rightarrow>
                  (if 0 \<le> n \<and> n < 4294967296
                   then (if integrity ob = Sealed \<and> keep_below (nat n) (props ob) \<noteq> props ob
                         then (Inl TypeError,
                               put_obj a (Plain (ob\<lparr>len := top_index (props ob)\<rparr>)) s)
                         else (Inr (), put_obj a (Plain (ob\<lparr>len := nat n,
                                  props := keep_below (nat n) (props ob)\<rparr>)) s))
                   else (Inl RangeError, s))
              | _ \<Rightarrow> (Inl Unmodelled, s))
           else if integrity ob \<noteq> Extensible \<and> k \<notin> set (map fst (props ob))
             then (Inl TypeError, s)
           else if is_array ob then
             (case index_of_key k of
                Some i \<Rightarrow> (Inr (), put_obj a (Plain (ob\<lparr>len := max (len ob) (Suc i),
                                  props := AList.update k v (props ob)\<rparr>)) s)
              | None \<Rightarrow> (Inr (), put_obj a (Plain (ob\<lparr>props := AList.update k v (props ob)\<rparr>)) s))
           else (Inr (), put_obj a (Plain (ob\<lparr>props := AList.update k v (props ob)\<rparr>)) s))
      | _ \<Rightarrow> (Inl Unmodelled, s))"

text \<open>
  \<open>delete target[prop]\<close> in strict code: deleting the non-configurable
  \<open>length\<close> of an array, or an own property of a sealed or frozen object,
  throws; everything else yields \<open>true\<close>, whether the property existed or not.
\<close>

definition raw_delete :: "addr \<Rightarrow> string \<Rightarrow> bool js" where
  "raw_delete a k s =
     (case obj_at s a of
        Some (Plain ob) \<Rightarrow>
          (if is_array ob \<and> k = ''length'' then (Inl TypeError, s)
           else if (integrity ob = Sealed \<or> integrity ob = Frozen)
                   \<and> k \<in> set (map fst (props ob))
             then (Inl TypeError, s)
           else (Inr True, put_obj a (Plain (ob\<lparr>props := AList.delete k (props ob)\<rparr>)) s))
      | _ \<Rightarrow> (Inl Unmodelled, s))"

text \<open>\<open>prop in target\<close>: own and inherited properties.\<close>

definition raw_has :: "store \<Rightarrow> addr \<Rightarrow> string \<Rightarrow> error + bool" where
  "raw_has s a k =
     (case obj_at s a of
        Some (Plain ob) \<Rightarrow>
          Inr (k \<in> set (map fst (props ob))
               \<or> (is_array ob \<and> (k = ''length'' \<or> is_method k
                                  \<or> k \<in> set array_proto_names))
               \<or> k \<in> set object_proto_names)
      | _ \<Rightarrow> Inl Unmodelled)"

text \<open>\<open>Object.keys(target)\<close> and \<open>Array.isArray(target)\<close>.\<close>

definition raw_keys :: "store \<Rightarrow> addr \<Rightarrow> error + string list" where
  "raw_keys s a =
     (case obj_at s a of
        Some (Plain ob) \<Rightarrow> Inr (map fst (props ob))
      | Some (Closure t f) \<Rightarrow> Inr []
      | _ \<Rightarrow> Inl Unmodelled)"

definition raw_isArray :: "store \<Rightarrow> addr \<Rightarrow> bool" where
  "raw_isArray s a = (case obj_at s a of Some (Plain ob) \<Rightarrow> is_array ob | _ \<Rightarrow> False)"


section \<open>The equality utility and the reactive wrapping engine\<close>

subsection \<open>Tests on values\<close>

text \<open>\<open>a === b\<close>: \<open>NaN\<close> differs from itself, objects are compared by address.\<close>

definition strict_eq :: "jsval \<Rightarrow> jsval \<Rightarrow> bool" where
  "strict_eq a b = (a = b \<and> a \<noteq> VNaN)"

text \<open>\<open>v == null\<close>.\<close>

definition nullish :: "jsval \<Rightarrow> bool" where
  "nullish v = (v = VNull \<or> v = VUndef)"

fun truthy :: "jsval \<Rightarrow> bool" where
  "truthy VUndef = False"
| "truthy VNull = False"
| "truthy (VBool b) = b"
| "truthy (VNum n) = (n \<noteq> 0)"
| "truthy VNaN = False"
| "truthy (VStr str) = (str \<noteq> [])"
| "truthy (VRef a) = True"
| "truthy (VBuiltin m) = True"

text \<open>\<open>typeof v === 'object'\<close>: true of \<open>null\<close> and of every object that is not a function.\<close>

definition typeof_object :: "store \<Rightarrow> jsval \<Rightarrow> bool" where
  "typeof_object s v =
     (case v of
        VNull \<Rightarrow> True
      | VRef a \<Rightarrow> (case obj_at s a of Some (Closure t f) \<Rightarrow> False | _ \<Rightarrow> True)
      | _ \<Rightarrow> False)"

text \<open>
  \<open>value.__isReactive\<close>, read on an object, as a truth value.  Both proxy
  handlers answer \<open>true\<close> in the first line of their get trap.
\<close>

definition is_reactive :: "store \<Rightarrow> jsval \<Rightarrow> error + bool" where
  "is_reactive s v =
     (case v of
        VRef a \<Rightarrow>
          (case obj_at s a of
             Some (ProxyObj t h) \<Rightarrow> Inr True
           | _ \<Rightarrow> (case raw_get s a ''__isReactive'' of Inl e \<Rightarrow> Inl e | Inr x \<Rightarrow> Inr (truthy x)))
      | _ \<Rightarrow> Inl TypeError)"

subsection \<open>Creating proxies\<close>

text \<open>
  \<open>new Proxy(target, handler)\<close> throws a \<open>TypeError\<close> when the target is not
  an object, and only then: a frozen, sealed or non-extensible object, an
  array, a function and a proxy are all wrapped.  (The handlers of the engine
  are object literals.)
\<close>

definition new_Proxy :: "jsval \<Rightarrow> handler \<Rightarrow> jsval js" where
  "new_Proxy target h s =
     (case target of
        VRef a \<Rightarrow>
          (case obj_at s a of
             None \<Rightarrow> (Inl Unmodelled, s)
           | Some ob \<Rightarrow> (case alloc (ProxyObj a h) s of (p, s') \<Rightarrow> (Inr (VRef p), s')))
      | VBuiltin m \<Rightarrow> (Inl Unmodelled, s)
      | _ \<Rightarrow> (Inl TypeError, s))"

text \<open>\<open>ReactiveStore.createReactiveState\<close>: the root proxy, not entered in the cache.\<close>

definition createReactiveState :: "jsval \<Rightarrow> jsval js" where
  "createReactiveState st s =
     (case new_Proxy st RootHandler s of
        (Inr p, s') \<Rightarrow> (Inr p, s')
      | (Inl e, s') \<Rightarrow>
          (Inr st, console_error ''[ReactiveStore] Failed to create reactive state:'' e s'))"

text \<open>\<open>ReactiveStore.makeReactive\<close>.\<close>

definition makeReactive :: "jsval \<Rightarrow> jsval js" where
  "makeReactive obj s =
     (if \<not> (truthy obj \<and> typeof_object s obj) then (Inr obj, s)
      else case obj of
        VRef a \<Rightarrow>
          (case proxyCache s a of
             Some cached \<Rightarrow> (Inr (VRef cached), s)
           | None \<Rightarrow>
               (case new_Proxy obj NestedHandler s of
                  (Inr (VRef p), s') \<Rightarrow>
                    (Inr (VRef p), s'\<lparr>proxyCache := (proxyCache s')(a \<mapsto> p)\<rparr>)
                | (Inr other, s') \<Rightarrow> (Inr other, s')
                | (Inl e, s') \<Rightarrow>
                    (Inr obj, console_error ''[ReactiveStore] Failed to make object reactive:'' e s')))
      | _ \<Rightarrow> (Inr obj, s))"

text \<open>
  The test \<open>value && typeof value === 'object' && !value.__isReactive\<close>
  that guards every call of \<open>makeReactive\<close> in the traps.
\<close>

definition needs_wrap :: "store \<Rightarrow> jsval \<Rightarrow> error + bool" where
  "needs_wrap s v =
     (if truthy v \<and> typeof_object s v then
        (case is_reactive s v of Inl e \<Rightarrow> Inl e | Inr r \<Rightarrow> Inr (\<not> r))
      else Inr False)"

subsection \<open>The get traps\<close>

text \<open>
  The part common to both get traps: read \<open>target[prop]\<close>, wrap an object
  that is not yet reactive, store the proxy back into the target and return it.
\<close>

definition read_and_wrap :: "addr \<Rightarrow> string \<Rightarrow> jsval js" where
  "read_and_wrap t prop s =
     (case raw_get s t prop of
        Inl e \<Rightarrow> (Inl e, s)
      | Inr v \<Rightarrow>
          (case needs_wrap s v of
             Inl e \<Rightarrow> (Inl e, s)
           | Inr False \<Rightarrow> (Inr v, s)
           | Inr True \<Rightarrow>
               (case makeReactive v s of
                  (Inl e, s1) \<Rightarrow> (Inl e, s1)
                | (Inr rv, s1) \<Rightarrow>
                    (case raw_set t prop rv s1 of
                       (Inl e, s2) \<Rightarrow> (Inl e, s2)
                     | (Inr u, s2) \<Rightarrow> (Inr rv, s2)))))"

definition root_get :: "addr \<Rightarrow> string \<Rightarrow> jsval js" where
  "root_get t prop s =
     (if prop = ''__isReactive'' then (Inr (VBool True), s)
      else if prop = ''__store'' then (Inr (VRef (self s)), s)
      else read_and_wrap t prop s)"

definition nested_get :: "addr \<Rightarrow> string \<Rightarrow> jsval js" where
  "nested_get t prop s =
     (if prop = ''__isReactive'' then (Inr (VBool True), s)
      else if raw_isArray s t \<and> is_method prop then
        (case raw_get s t prop of
           Inl e \<Rightarrow> (Inl e, s)
         | Inr originalMethod \<Rightarrow>
             (case alloc (Closure t originalMethod) s of (f, s') \<Rightarrow> (Inr (VRef f), s')))
      else read_and_wrap t prop s)"

text \<open>\<open>v[k]\<close>, \<open>Object.keys(v)\<close> and \<open>Array.isArray(v)\<close> on any value.\<close>

definition js_get :: "jsval \<Rightarrow> string \<Rightarrow> jsval js" where
  "js_get v k s =
     (case v of
        VRef a \<Rightarrow>
          (case obj_at s a of
             Some (ProxyObj t RootHandler) \<Rightarrow> root_get t k s
           | Some (ProxyObj t NestedHandler) \<Rightarrow> nested_get t k s
           | _ \<Rightarrow> (raw_get s a k, s))
      | VUndef \<Rightarrow> (Inl TypeError, s)
      | VNull \<Rightarrow> (Inl TypeError, s)
      | _ \<Rightarrow> (Inl Unmodelled, s))"

definition js_keys :: "store \<Rightarrow> jsval \<Rightarrow> error + string list" where
  "js_keys s v =
     (case v of
        VRef a \<Rightarrow>
          (case obj_at s a of
             Some (ProxyObj t h) \<Rightarrow> raw_keys s t
           | _ \<Rightarrow> raw_keys s a)
      | VUndef \<Rightarrow> Inl TypeError
      | VNull \<Rightarrow> Inl TypeError
      | VStr str \<Rightarrow> Inl Unmodelled
      | _ \<Rightarrow> Inr [])"

definition js_isArray :: "store \<Rightarrow> jsval \<Rightarrow> bool" where
  "js_isArray s v =
     (case v of
        VRef a \<Rightarrow>
          (case obj_at s a of
             Some (ProxyObj t h) \<Rightarrow> raw_isArray s t
           | _ \<Rightarrow> raw_isArray s a)
      | _ \<Rightarrow> False)"

subsection \<open>deepEqual\<close>

text \<open>
  \<open>deepEqual\<close> recurses without a cycle check; the depth of the recursion is
  bounded by the call stack, and exhausting it throws a \<open>RangeError\<close>.  The
  first argument is the stack depth left.  The reads \<open>a[key]\<close> and \<open>b[key]\<close>
  go through the get trap when an operand is a proxy, so the comparison can
  change the store.
\<close>

fun deepEqual :: "nat \<Rightarrow> jsval \<Rightarrow> jsval \<Rightarrow> bool js"
  and deepEqual_keys :: "nat \<Rightarrow> string list \<Rightarrow> string list \<Rightarrow> jsval \<Rightarrow> jsval \<Rightarrow> bool js"
where
  "deepEqual 0 a b s = (Inl RangeError, s)"
| "deepEqual (Suc n) a b s =
     (if strict_eq a b then (Inr True, s)
      else if nullish a \<or> nullish b then (Inr False, s)
      else if \<not> (typeof_object s a \<and> typeof_object s b) then (Inr False, s)
      else if js_isArray s a \<noteq> js_isArray s b then (Inr False, s)
      else case js_keys s a of
        Inl e \<Rightarrow> (Inl e, s)
      | Inr keysA \<Rightarrow>
          (case js_keys s b of
             Inl e \<Rightarrow> (Inl e, s)
           | Inr keysB \<Rightarrow>
               (if length keysA \<noteq> length keysB then (Inr False, s)
                else deepEqual_keys n keysA keysB a b s)))"
| "deepEqual_keys n [] keysB a b s = (Inr True, s)"
| "deepEqual_keys n (key # keys) keysB a b s =
     (if key \<notin> set keysB then (Inr False, s)
      else case js_get a key s of
        (Inl e, s1) \<Rightarrow> (Inl e, s1)
      | (Inr valueA, s1) \<Rightarrow>
          (case js_get b key s1 of
             (Inl e, s2) \<Rightarrow> (Inl e, s2)
           | (Inr valueB, s2) \<Rightarrow>
               (case deepEqual n valueA valueB s2 of
                  (Inl e, s3) \<Rightarrow> (Inl e, s3)
                | (Inr False, s3) \<Rightarrow> (Inr False, s3)
                | (Inr True, s3) \<Rightarrow> deepEqual_keys n keys keysB a b s3)))"


subsection \<open>Notification and the set and delete traps\<close>

text \<open>
  \<open>StoreCore.notifyListeners\<close>: \<open>this.listeners.forEach(listener => listener(this.state))\<close>,
  with no handler around the call: the first listener that throws ends the loop.
\<close>

fun call_listeners :: "listener list \<Rightarrow> jsval \<Rightarrow> unit js" where
  "call_listeners [] v s = (Inr (), s)"
| "call_listeners (l # ls) v s =
     (case lthrows l v of
        Some e \<Rightarrow> (Inl e, s\<lparr>trace := trace s @ [ListenerCall (lid l) v]\<rparr>)
      | None \<Rightarrow> call_listeners ls v (s\<lparr>trace := trace s @ [ListenerCall (lid l) v]\<rparr>))"

definition notifyListeners :: "unit js" where
  "notifyListeners s = call_listeners (listeners s) (state s) s"

text \<open>The value stored by a set trap: the assigned value, wrapped when it needs to be.\<close>

definition wrap_assigned :: "jsval \<Rightarrow> jsval js" where
  "wrap_assigned v s =
     (case needs_wrap s v of
        Inl e \<Rightarrow> (Inl e, s)
      | Inr True \<Rightarrow> makeReactive v s
      | Inr False \<Rightarrow> (Inr v, s))"

text \<open>\<open>if (!deepEqual(oldValue, reactiveValue)) store.notifyListeners()\<close>.\<close>

definition notify_unless_equal :: "jsval \<Rightarrow> jsval \<Rightarrow> unit js" where
  "notify_unless_equal oldValue reactiveValue s =
     (case deepEqual (stack_limit s) oldValue reactiveValue s of
        (Inl e, s1) \<Rightarrow> (Inl e, s1)
      | (Inr True, s1) \<Rightarrow> (Inr (), s1)
      | (Inr False, s1) \<Rightarrow> notifyListeners s1)"

text \<open>The set trap of the root proxy (\<open>createReactiveState\<close>).\<close>

definition root_set :: "addr \<Rightarrow> string \<Rightarrow> jsval \<Rightarrow> bool js" where
  "root_set t prop v s =
     (case raw_get s t prop of
        Inl e \<Rightarrow> (Inl e, s)
      | Inr oldValue \<Rightarrow>
          (case wrap_assigned v s of
             (Inl e, s1) \<Rightarrow> (Inl e, s1)
           | (Inr reactiveValue, s1) \<Rightarrow>
               (case raw_set t prop reactiveValue s1 of
                  (Inl e, s2) \<Rightarrow> (Inl e, s2)
                | (Inr u, s2) \<Rightarrow>
                    (case notify_unless_equal oldValue reactiveValue s2 of
                       (Inl e, s3) \<Rightarrow> (Inl e, s3)
                     | (Inr u, s3) \<Rightarrow> (Inr True, s3)))))"

text \<open>
  \<open>typeof prop === 'string' && !isNaN(Number(prop)) && prop !== 'NaN'\<close>.
  \<open>Number\<close> applied to a string strips white space and accepts the empty
  string, a signed decimal literal, \<open>Infinity\<close>, and an unsigned binary,
  octal or hexadecimal literal.
\<close>

definition is_space :: "char \<Rightarrow> bool" where
  "is_space c = ((of_char c :: nat) \<in> {9, 10, 11, 12, 13, 32, 160})"

definition trim :: "string \<Rightarrow> string" where
  "trim str = rev (dropWhile is_space (rev (dropWhile is_space str)))"

definition is_digits :: "string \<Rightarrow> bool" where
  "is_digits ds = (ds \<noteq> [] \<and> list_all is_digit ds)"

definition is_hex_digit :: "char \<Rightarrow> bool" where
  "is_hex_digit c =
     (is_digit c \<or> (of_char c :: nat) \<in> {65 ..< 71} \<or> (of_char c :: nat) \<in> {97 ..< 103})"

definition strip_sign :: "string \<Rightarrow> string" where
  "strip_sign str =
     (case str of
        c # cs \<Rightarrow> (if c = CHR ''+'' \<or> c = CHR ''-'' then cs else str)
      | [] \<Rightarrow> [])"

definition is_exp_mark :: "char \<Rightarrow> bool" where
  "is_exp_mark c = (c = CHR ''e'' \<or> c = CHR ''E'')"

definition is_mantissa :: "string \<Rightarrow> bool" where
  "is_mantissa m =
     (case dropWhile (\<lambda>c. c \<noteq> CHR ''.'') m of
        [] \<Rightarrow> is_digits m
      | dot # frac \<Rightarrow>
          list_all is_digit (takeWhile (\<lambda>c. c \<noteq> CHR ''.'') m) \<and> list_all is_digit frac
          \<and> (takeWhile (\<lambda>c. c \<noteq> CHR ''.'') m @ frac \<noteq> []))"

definition is_unsigned_decimal :: "string \<Rightarrow> bool" where
  "is_unsigned_decimal u =
     (u = ''Infinity''
      \<or> (case dropWhile (\<lambda>c. \<not> is_exp_mark c) u of
            [] \<Rightarrow> is_mantissa u
          | e # ex \<Rightarrow> is_mantissa (takeWhile (\<lambda>c. \<not> is_exp_mark c) u) \<and> is_digits (strip_sign ex)))"

definition is_non_decimal :: "string \<Rightarrow> bool" where
  "is_non_decimal u =
     (case u of
        z # x # ds \<Rightarrow>
          z = CHR ''0'' \<and> ds \<noteq> []
          \<and> (if x = CHR ''x'' \<or> x = CHR ''X'' then list_all is_hex_digit ds
             else if x = CHR ''o'' \<or> x = CHR ''O''
               then list_all (\<lambda>c. (of_char c :: nat) \<in> {48 ..< 56}) ds
             else if x = CHR ''b'' \<or> x = CHR ''B''
               then list_all (\<lambda>c. (of_char c :: nat) \<in> {48 ..< 50}) ds
             else False)
      | _ \<Rightarrow> False)"

definition Number_isNaN :: "string \<Rightarrow> bool" where
  "Number_isNaN str =
     (trim str \<noteq> [] \<and> \<not> is_unsigned_decimal (strip_sign (trim str))
      \<and> \<not> is_non_decimal (trim str))"

definition isNumericIndex :: "string \<Rightarrow> bool" where
  "isNumericIndex prop = (\<not> Number_isNaN prop \<and> prop \<noteq> ''NaN'')"

text \<open>
  The set trap of a nested proxy (\<open>makeReactive\<close>).  On an array a numeric
  key notifies without comparing (\<open>||\<close> does not evaluate \<open>deepEqual\<close>).
\<close>

definition nested_set :: "addr \<Rightarrow> string \<Rightarrow> jsval \<Rightarrow> bool js" where
  "nested_set t prop v s =
     (case raw_get s t prop of
        Inl e \<Rightarrow> (Inl e, s)
      | Inr oldValue \<Rightarrow>
          (case wrap_assigned v s of
             (Inl e, s1) \<Rightarrow> (Inl e, s1)
           | (Inr reactiveValue, s1) \<Rightarrow>
               (case raw_set t prop reactiveValue s1 of
                  (Inl e, s2) \<Rightarrow> (Inl e, s2)
                | (Inr u, s2) \<Rightarrow>
                    (case (if raw_isArray s t \<and> isNumericIndex prop then notifyListeners s2
                           else notify_unless_equal oldValue reactiveValue s2) of
                       (Inl e, s3) \<Rightarrow> (Inl e, s3)
                     | (Inr u, s3) \<Rightarrow> (Inr True, s3)))))"

text \<open>The deleteProperty trap, the same in both handlers.\<close>

definition deleteProperty :: "addr \<Rightarrow> string \<Rightarrow> bool js" where
  "deleteProperty t prop s =
     (case raw_has s t prop of
        Inl e \<Rightarrow> (Inl e, s)
      | Inr hasProperty \<Rightarrow>
          (case raw_delete t prop s of
             (Inl e, s1) \<Rightarrow> (Inl e, s1)
           | (Inr result, s1) \<Rightarrow>
               (if hasProperty \<and> result then
                  (case notifyListeners s1 of
                     (Inl e, s2) \<Rightarrow> (Inl e, s2)
                   | (Inr u, s2) \<Rightarrow> (Inr result, s2))
                else (Inr result, s1))))"

text \<open>
  \<open>v[k] = x\<close> and \<open>delete v[k]\<close> on any value, in strict code: a trap that
  answers \<open>false\<close>, and an assignment to a property of a primitive, throw.
\<close>

definition js_set :: "jsval \<Rightarrow> string \<Rightarrow> jsval \<Rightarrow> unit js" where
  "js_set v k x s =
     (case v of
        VRef a \<Rightarrow>
          (case obj_at s a of
             Some (ProxyObj t h) \<Rightarrow>
               (case (case h of RootHandler \<Rightarrow> root_set t k x s
                              | NestedHandler \<Rightarrow> nested_set t k x s) of
                  (Inl e, s1) \<Rightarrow> (Inl e, s1)
                | (Inr ok, s1) \<Rightarrow> (if ok then (Inr (), s1) else (Inl TypeError, s1)))
           | _ \<Rightarrow> raw_set a k x s)
      | _ \<Rightarrow> (Inl TypeError, s))"

definition js_delete :: "jsval \<Rightarrow> string \<Rightarrow> unit js" where
  "js_delete v k s =
     (case v of
        VRef a \<Rightarrow>
          (case obj_at s a of
             Some (ProxyObj t h) \<Rightarrow>
               (case deleteProperty t k s of
                  (Inl e, s1) \<Rightarrow> (Inl e, s1)
                | (Inr ok, s1) \<Rightarrow> (if ok then (Inr (), s1) else (Inl TypeError, s1)))
           | _ \<Rightarrow>
               (case raw_delete a k s of
                  (Inl e, s1) \<Rightarrow> (Inl e, s1)
                | (Inr ok, s1) \<Rightarrow> (if ok then (Inr (), s1) else (Inl TypeError, s1))))
      | _ \<Rightarrow> (Inl TypeError, s))"


subsection \<open>Array methods\<close>

text \<open>
  \<open>Array.prototype.pop\<close> and \<open>Array.prototype.push\<close> as the language
  defines them: generic in \<open>this\<close>, through its get, set and delete
  operations.  The other five mutating methods are outside the model.
\<close>

definition toLength :: "jsval \<Rightarrow> error + nat" where
  "toLength v = (case v of VNum n \<Rightarrow> Inr (nat n) | VUndef \<Rightarrow> Inr 0 | _ \<Rightarrow> Inl Unmodelled)"

definition lengthOf :: "jsval \<Rightarrow> nat js" where
  "lengthOf this s =
     (case js_get this ''length'' s of
        (Inl e, s1) \<Rightarrow> (Inl e, s1)
      | (Inr v, s1) \<Rightarrow> (toLength v, s1))"

definition array_pop :: "jsval \<Rightarrow> jsval js" where
  "array_pop this s =
     (case lengthOf this s of
        (Inl e, s1) \<Rightarrow> (Inl e, s1)
      | (Inr 0, s1) \<Rightarrow>
          (case js_set this ''length'' (VNum 0) s1 of
             (Inl e, s2) \<Rightarrow> (Inl e, s2)
           | (Inr u, s2) \<Rightarrow> (Inr VUndef, s2))
      | (Inr (Suc newLen), s1) \<Rightarrow>
          (case js_get this (string_of_nat newLen) s1 of
             (Inl e, s2) \<Rightarrow> (Inl e, s2)
           | (Inr element, s2) \<Rightarrow>
               (case js_delete this (string_of_nat newLen) s2 of
                  (Inl e, s3) \<Rightarrow> (Inl e, s3)
                | (Inr u, s3) \<Rightarrow>
                    (case js_set this ''length'' (VNum (int newLen)) s3 of
                       (Inl e, s4) \<Rightarrow> (Inl e, s4)
                     | (Inr u, s4) \<Rightarrow> (Inr element, s4)))))"

fun push_items :: "jsval \<Rightarrow> nat \<Rightarrow> jsval list \<Rightarrow> nat js" where
  "push_items this n [] s = (Inr n, s)"
| "push_items this n (x # xs) s =
     (case js_set this (string_of_nat n) x s of
        (Inl e, s1) \<Rightarrow> (Inl e, s1)
      | (Inr u, s1) \<Rightarrow> push_items this (Suc n) xs s1)"

definition array_push :: "jsval \<Rightarrow> jsval list \<Rightarrow> jsval js" where
  "array_push this args s =
     (case lengthOf this s of
        (Inl e, s1) \<Rightarrow> (Inl e, s1)
      | (Inr n, s1) \<Rightarrow>
          (case push_items this n args s1 of
             (Inl e, s2) \<Rightarrow> (Inl e, s2)
           | (Inr n', s2) \<Rightarrow>
               (case js_set this ''length'' (VNum (int n')) s2 of
                  (Inl e, s3) \<Rightarrow> (Inl e, s3)
                | (Inr u, s3) \<Rightarrow> (Inr (VNum (int n')), s3))))"

definition array_builtin :: "array_method \<Rightarrow> jsval \<Rightarrow> jsval list \<Rightarrow> jsval js" where
  "array_builtin m this args s =
     (case m of
        Pop \<Rightarrow> array_pop this s
      | Push \<Rightarrow> array_push this args s
      | _ \<Rightarrow> (Inl Unmodelled, s))"

text \<open>
  Calling a function value with a receiver.  The closure made by the nested
  get trap runs \<open>originalMethod.apply(target, args)\<close> on the target, not on
  the proxy, then notifies once.
\<close>

definition call_function :: "jsval \<Rightarrow> jsval \<Rightarrow> jsval list \<Rightarrow> jsval js" where
  "call_function f this args s =
     (case f of
        VBuiltin m \<Rightarrow> array_builtin m this args s
      | VRef a \<Rightarrow>
          (case obj_at s a of
             Some (Closure target originalMethod) \<Rightarrow>
               (case originalMethod of
                  VBuiltin m \<Rightarrow>
                    (case array_builtin m (VRef target) args s of
                       (Inl e, s1) \<Rightarrow> (Inl e, s1)
                     | (Inr result, s1) \<Rightarrow>
                         (case notifyListeners s1 of
                            (Inl e, s2) \<Rightarrow> (Inl e, s2)
                          | (Inr u, s2) \<Rightarrow> (Inr result, s2)))
                | VRef g \<Rightarrow> (Inl Unmodelled, s)
                | _ \<Rightarrow> (Inl TypeError, s))
           | _ \<Rightarrow> (Inl TypeError, s))
      | _ \<Rightarrow> (Inl TypeError, s))"

text \<open>The method call \<open>recv.name(...args)\<close>.\<close>

definition call_method :: "jsval \<Rightarrow> string \<Rightarrow> jsval list \<Rightarrow> jsval js" where
  "call_method recv name args s =
     (case js_get recv name s of
        (Inl e, s1) \<Rightarrow> (Inl e, s1)
      | (Inr f, s1) \<Rightarrow> call_function f recv args s1)"

section \<open>StoreCore\<close>

text \<open>
  The class as \<open>part_018\<close> has it, the copy that imports \<open>deepEqual\<close> and
  that \<open>ReactiveStore\<close> and \<open>StoreFull\<close> extend.
\<close>

type_synonym updater = "jsval \<Rightarrow> jsval js"

text \<open>
  The constructor: the store object is allocated after the objects of the
  initial state, and every plugin's \<open>onInit\<close> runs.
\<close>

fun onInit_all :: "plugin list \<Rightarrow> unit js" where
  "onInit_all [] s = (Inr (), s)"
| "onInit_all (p # ps) s =
     (case onInit p of
        None \<Rightarrow> onInit_all ps s
      | Some None \<Rightarrow> onInit_all ps (s\<lparr>trace := trace s @ [OnInit (pid p)]\<rparr>)
      | Some (Some e) \<Rightarrow> (Inl e, s\<lparr>trace := trace s @ [OnInit (pid p)]\<rparr>))"

definition new_StoreCore :: "jsobj list \<Rightarrow> nat \<Rightarrow> jsval \<Rightarrow> plugin list \<Rightarrow> (error + unit) \<times> store" where
  "new_StoreCore h depth initialState ps =
     onInit_all ps
       \<lparr>heap = h @ [StoreObj], self = length h, state = initialState, listeners = [],
        plugins = ps, reactiveState = VUndef, proxyCache = Map.empty, trace = [],
        console = [], stack_limit = depth\<rparr>"

definition getState :: "store \<Rightarrow> jsval" where
  "getState s = state s"

text \<open>
  The loop over the plugins' \<open>onBeforeUpdate\<close>: a result other than
  \<open>undefined\<close> replaces the new state; an exception is logged and thrown again.
\<close>

fun onBeforeUpdate_all :: "plugin list \<Rightarrow> jsval \<Rightarrow> jsval \<Rightarrow> jsval js" where
  "onBeforeUpdate_all [] newState oldState s = (Inr newState, s)"
| "onBeforeUpdate_all (p # ps) newState oldState s =
     (case onBeforeUpdate p of
        None \<Rightarrow> onBeforeUpdate_all ps newState oldState s
      | Some f \<Rightarrow>
          (case f newState oldState of
             Inl e \<Rightarrow>
               (Inl e, console_error ''[StoreCore] Error in plugin onBeforeUpdate:'' e
                         (s\<lparr>trace := trace s @ [BeforeUpdate (pid p) newState oldState]\<rparr>))
           | Inr result \<Rightarrow>
               onBeforeUpdate_all ps (if result = VUndef then newState else result) oldState
                 (s\<lparr>trace := trace s @ [BeforeUpdate (pid p) newState oldState]\<rparr>)))"

text \<open>The listeners of a commit: each call has its own \<open>try\<close>/\<open>catch\<close>.\<close>

fun call_listeners_caught :: "listener list \<Rightarrow> jsval \<Rightarrow> store \<Rightarrow> store" where
  "call_listeners_caught [] v s = s"
| "call_listeners_caught (l # ls) v s =
     (case lthrows l v of
        None \<Rightarrow> call_listeners_caught ls v (s\<lparr>trace := trace s @ [ListenerCall (lid l) v]\<rparr>)
      | Some e \<Rightarrow>
          call_listeners_caught ls v
            (console_error ''[StoreCore] Error in listener:'' e
               (s\<lparr>trace := trace s @ [ListenerCall (lid l) v]\<rparr>)))"

fun onAfterUpdate_all :: "plugin list \<Rightarrow> jsval \<Rightarrow> jsval \<Rightarrow> store \<Rightarrow> store" where
  "onAfterUpdate_all [] newState oldState s = s"
| "onAfterUpdate_all (p # ps) newState oldState s =
     (case onAfterUpdate p of
        None \<Rightarrow> onAfterUpdate_all ps newState oldState s
      | Some f \<Rightarrow>
          (case f newState oldState of
             None \<Rightarrow>
               onAfterUpdate_all ps newState oldState
                 (s\<lparr>trace := trace s @ [AfterUpdate (pid p) newState oldState]\<rparr>)
           | Some e \<Rightarrow>
               onAfterUpdate_all ps newState oldState
                 (console_error ''[StoreCore] Error in plugin onAfterUpdate:'' e
                    (s\<lparr>trace := trace s @ [AfterUpdate (pid p) newState oldState]\<rparr>))))"

text \<open>
  \<open>typeof newState === 'object' && newState !== null ? !deepEqual(newState, oldState)
  : newState !== oldState\<close>.
\<close>

definition hasChanged :: "jsval \<Rightarrow> jsval \<Rightarrow> bool js" where
  "hasChanged newState oldState s =
     (if typeof_object s newState \<and> newState \<noteq> VNull then
        (case deepEqual (stack_limit s) newState oldState s of
           (Inl e, s1) \<Rightarrow> (Inl e, s1)
         | (Inr eq, s1) \<Rightarrow> (Inr (\<not> eq), s1))
      else (Inr (\<not> strict_eq newState oldState), s))"

definition commit :: "jsval \<Rightarrow> jsval \<Rightarrow> store \<Rightarrow> store" where
  "commit newState oldState s =
     onAfterUpdate_all (plugins s) newState oldState
       (call_listeners_caught (listeners s) newState (s\<lparr>state := newState\<rparr>))"

text \<open>The body of the \<open>try\<close> block of \<open>StoreCore.setState\<close>.\<close>

definition setState_try :: "updater \<Rightarrow> unit js" where
  "setState_try updater s =
     (case updater (state s) s of
        (Inl e, s1) \<Rightarrow> (Inl e, s1)
      | (Inr newState, s1) \<Rightarrow>
          (if nullish newState then (Inl StateInvalid, s1)
           else case onBeforeUpdate_all (plugins s1) newState (state s) s1 of
             (Inl e, s2) \<Rightarrow> (Inl e, s2)
           | (Inr newState', s2) \<Rightarrow>
               (case hasChanged newState' (state s) s2 of
                  (Inl e, s3) \<Rightarrow> (Inl e, s3)
                | (Inr False, s3) \<Rightarrow> (Inr (), s3)
                | (Inr True, s3) \<Rightarrow> (Inr (), commit newState' (state s) s3))))"

definition setState :: "updater \<Rightarrow> unit js" where
  "setState updater s =
     (case setState_try updater s of
        (Inl e, s') \<Rightarrow> (Inl e, console_error ''[StoreCore] Error in setState:'' e s')
      | (Inr u, s') \<Rightarrow> (Inr u, s'))"

text \<open>
  \<open>subscribe\<close> adds the listener to the set (a listener already present is
  not added twice), calls each plugin's \<open>onSubscribe\<close> and returns the
  teardowns it collected; the returned \<open>unsubscribe\<close> removes the listener
  and runs them.
\<close>

fun onSubscribe_all :: "plugin list \<Rightarrow> nat \<Rightarrow> nat list js" where
  "onSubscribe_all [] l s = (Inr [], s)"
| "onSubscribe_all (p # ps) l s =
     (case onSubscribe p of
        None \<Rightarrow> onSubscribe_all ps l s
      | Some f \<Rightarrow>
          (case f l of
             Inl e \<Rightarrow> (Inl e, s\<lparr>trace := trace s @ [OnSubscribe (pid p) l]\<rparr>)
           | Inr td \<Rightarrow>
               (case onSubscribe_all ps l (s\<lparr>trace := trace s @ [OnSubscribe (pid p) l]\<rparr>) of
                  (Inl e, s') \<Rightarrow> (Inl e, s')
                | (Inr tds, s') \<Rightarrow> (Inr (if td then pid p # tds else tds), s'))))"

definition subscribe :: "listener \<Rightarrow> nat list js" where
  "subscribe l s =
     onSubscribe_all (plugins s) (lid l)
       (s\<lparr>listeners := (if lid l \<in> set (map lid (listeners s)) then listeners s
                         else listeners s @ [l])\<rparr>)"

definition unsubscribe :: "nat \<Rightarrow> nat list \<Rightarrow> store \<Rightarrow> store" where
  "unsubscribe l tds s =
     s\<lparr>listeners := filter (\<lambda>x. lid x \<noteq> l) (listeners s),
       trace := trace s @ map Teardown tds\<rparr>"

text \<open>\<open>destroy\<close>: \<open>this.listeners.clear()\<close>, then every plugin's \<open>onDestroy\<close>.\<close>

fun onDestroy_all :: "plugin list \<Rightarrow> unit js" where
  "onDestroy_all [] s = (Inr (), s)"
| "onDestroy_all (p # ps) s =
     (case onDestroy p of
        None \<Rightarrow> onDestroy_all ps s
      | Some None \<Rightarrow> onDestroy_all ps (s\<lparr>trace := trace s @ [OnDestroy (pid p)]\<rparr>)
      | Some (Some e) \<Rightarrow> (Inl e, s\<lparr>trace := trace s @ [OnDestroy (pid p)]\<rparr>))"

definition destroy :: "unit js" where
  "destroy s = onDestroy_all (plugins s) (s\<lparr>listeners := []\<rparr>)"


subsection \<open>The second copy of the class\<close>

text \<open>
  The repository holds a second copy of \<open>StoreCore\<close> (\<open>part_013\<close>), which
  does not import \<open>deepEqual\<close>.  Its \<open>setState\<close> does not validate the new
  state, commits when \<open>newState !== oldState\<close>, and has no handler around
  the hooks and the listeners: the first of them that throws ends the call.
  Its other methods are those of the first copy.
\<close>

fun onBeforeUpdate_all_013 :: "plugin list \<Rightarrow> jsval \<Rightarrow> jsval \<Rightarrow> jsval js" where
  "onBeforeUpdate_all_013 [] newState oldState s = (Inr newState, s)"
| "onBeforeUpdate_all_013 (p # ps) newState oldState s =
     (case onBeforeUpdate p of
        None \<Rightarrow> onBeforeUpdate_all_013 ps newState oldState s
      | Some f \<Rightarrow>
          (case f newState oldState of
             Inl e \<Rightarrow> (Inl e, s\<lparr>trace := trace s @ [BeforeUpdate (pid p) newState oldState]\<rparr>)
           | Inr result \<Rightarrow>
               onBeforeUpdate_all_013 ps (if result = VUndef then newState else result) oldState
                 (s\<lparr>trace := trace s @ [BeforeUpdate (pid p) newState oldState]\<rparr>)))"

fun onAfterUpdate_all_013 :: "plugin list \<Rightarrow> jsval \<Rightarrow> jsval \<Rightarrow> unit js" where
  "onAfterUpdate_all_013 [] newState oldState s = (Inr (), s)"
| "onAfterUpdate_all_013 (p # ps) newState oldState s =
     (case onAfterUpdate p of
        None \<Rightarrow> onAfterUpdate_all_013 ps newState oldState s
      | Some f \<Rightarrow>
          (case f newState oldState of
             None \<Rightarrow>
               onAfterUpdate_all_013 ps newState oldState
                 (s\<lparr>trace := trace s @ [AfterUpdate (pid p) newState oldState]\<rparr>)
           | Some e \<Rightarrow>
               (Inl e, s\<lparr>trace := trace s @ [AfterUpdate (pid p) newState oldState]\<rparr>)))"

definition setState_013 :: "updater \<Rightarrow> unit js" where
  "setState_013 updater s =
     (case updater (state s) s of
        (Inl e, s1) \<Rightarrow> (Inl e, s1)
      | (Inr newState, s1) \<Rightarrow>
          (case onBeforeUpdate_all_013 (plugins s1) newState (state s) s1 of
             (Inl e, s2) \<Rightarrow> (Inl e, s2)
           | (Inr newState', s2) \<Rightarrow>
               (if strict_eq newState' (state s) then (Inr (), s2)
                else case call_listeners (listeners s2) newState' (s2\<lparr>state := newState'\<rparr>) of
                  (Inl e, s3) \<Rightarrow> (Inl e, s3)
                | (Inr u, s3) \<Rightarrow> onAfterUpdate_all_013 (plugins s3) newState' (state s) s3)))"


section \<open>ReactiveStore\<close>

text \<open>
  The constructor calls \<open>super(initialState)\<close>, with no plugins, and wraps
  the initial state in the root proxy.
\<close>

definition new_ReactiveStore :: "jsobj list \<Rightarrow> nat \<Rightarrow> jsval \<Rightarrow> (error + unit) \<times> store" where
  "new_ReactiveStore h depth initialState =
     (case new_StoreCore h depth initialState [] of
        (Inl e, s) \<Rightarrow> (Inl e, s)
      | (Inr u, s) \<Rightarrow>
          (case createReactiveState initialState s of
             (Inl e, s') \<Rightarrow> (Inl e, s')
           | (Inr r, s') \<Rightarrow> (Inr (), s'\<lparr>reactiveState := r\<rparr>)))"

text \<open>\<open>ReactiveStore.getState\<close> and the getter \<open>reactive\<close> return the reactive view.\<close>

definition reactive :: "store \<Rightarrow> jsval" where
  "reactive s = reactiveState s"

definition setProperty :: "string \<Rightarrow> jsval \<Rightarrow> unit js" where
  "setProperty key v s = js_set (reactiveState s) key v s"

definition getProperty :: "string \<Rightarrow> jsval js" where
  "getProperty key s = js_get (reactiveState s) key s"

text \<open>
  The loop \<open>Object.keys(newState).forEach(key => ...)\<close> of
  \<open>ReactiveStore.setState\<close>; the flag is \<open>hasChanges\<close>.
\<close>

fun write_changed_keys :: "string list \<Rightarrow> jsval \<Rightarrow> bool \<Rightarrow> bool js" where
  "write_changed_keys [] newState hasChanges s = (Inr hasChanges, s)"
| "write_changed_keys (key # keys) newState hasChanges s =
     (case js_get (reactiveState s) key s of
        (Inl e, s1) \<Rightarrow> (Inl e, s1)
      | (Inr oldValue, s1) \<Rightarrow>
          (case js_get newState key s1 of
             (Inl e, s2) \<Rightarrow> (Inl e, s2)
           | (Inr newValue, s2) \<Rightarrow>
               (case deepEqual (stack_limit s2) oldValue newValue s2 of
                  (Inl e, s3) \<Rightarrow> (Inl e, s3)
                | (Inr True, s3) \<Rightarrow> write_changed_keys keys newState hasChanges s3
                | (Inr False, s3) \<Rightarrow>
                    (case js_set (reactiveState s3) key newValue s3 of
                       (Inl e, s4) \<Rightarrow> (Inl e, s4)
                     | (Inr u, s4) \<Rightarrow> write_changed_keys keys newState True s4))))"

definition reactive_setState_try :: "updater \<Rightarrow> unit js" where
  "reactive_setState_try updater s =
     (case updater (reactiveState s) s of
        (Inl e, s1) \<Rightarrow> (Inl e, s1)
      | (Inr newState, s1) \<Rightarrow>
          (case js_keys s1 newState of
             Inl e \<Rightarrow> (Inl e, s1)
           | Inr keys \<Rightarrow>
               (case write_changed_keys keys newState False s1 of
                  (Inl e, s2) \<Rightarrow> (Inl e, s2)
                | (Inr hasChanges, s2) \<Rightarrow>
                    (if hasChanges then notifyListeners s2 else (Inr (), s2)))))"

definition reactive_setState :: "updater \<Rightarrow> unit js" where
  "reactive_setState updater s =
     (case reactive_setState_try updater s of
        (Inl e, s') \<Rightarrow> (Inl e, console_error ''[ReactiveStore] Error in setState:'' e s')
      | (Inr u, s') \<Rightarrow> (Inr u, s'))"

text \<open>
  Two updaters of the kind the tests and the README use.  \<open>s => ({...s, key: v})\<close>
  reads every own key of its argument (through the get trap when the argument
  is the reactive view), allocates a new plain object and overrides one key;
  \<open>s => obj\<close> returns an object the caller built.
\<close>

fun read_all :: "jsval \<Rightarrow> string list \<Rightarrow> (string \<times> jsval) list js" where
  "read_all src [] s = (Inr [], s)"
| "read_all src (k # ks) s =
     (case js_get src k s of
        (Inl e, s1) \<Rightarrow> (Inl e, s1)
      | (Inr v, s1) \<Rightarrow>
          (case read_all src ks s1 of
             (Inl e, s2) \<Rightarrow> (Inl e, s2)
           | (Inr ps, s2) \<Rightarrow> (Inr ((k, v) # ps), s2)))"

definition spread_with :: "string \<Rightarrow> jsval \<Rightarrow> updater" where
  "spread_with key v prev s =
     (case (if nullish prev then Inr [] else js_keys s prev) of
        Inl e \<Rightarrow> (Inl e, s)
      | Inr ks \<Rightarrow>
          (case read_all prev ks s of
             (Inl e, s1) \<Rightarrow> (Inl e, s1)
           | (Inr ps, s1) \<Rightarrow>
               (case alloc (Plain \<lparr>is_array = False, len = 0,
                                    props = AList.update key v ps, integrity = Extensible\<rparr>) s1 of
                  (a, s2) \<Rightarrow> (Inr (VRef a), s2))))"

definition returning :: "jsval \<Rightarrow> updater" where
  "returning v prev s = (Inr v, s)"

section \<open>StoreFull\<close>

text \<open>
  A middleware, once applied to the store, maps the continuation \<open>next\<close> to
  a function of the updater.  \<open>setState\<close> folds the chain from the right
  around \<open>StoreCore.setState\<close>.
\<close>

type_synonym nextFn = "updater \<Rightarrow> unit js"
type_synonym middleware = "nextFn \<Rightarrow> nextFn"

record storeFull =
  core :: store
  middlewares :: "middleware list"

definition use :: "middleware \<Rightarrow> storeFull \<Rightarrow> storeFull" where
  "use mw sf = sf\<lparr>middlewares := middlewares sf @ [mw]\<rparr>"


text \<open>
  A middleware is any function of this type: it may read and change the store,
  call the updater, call \<open>next\<close> any number of times, or throw.  The simplest
  ones have a body that is a sequence of: printing the state of the store,
  calling \<open>next\<close> with the updater, or a rewritten one, and throwing.
  \<open>loggerMiddleware\<close> is one of them.
\<close>

datatype mw_step = MwLog string | MwNext "updater \<Rightarrow> updater" | MwThrow error

fun run_steps :: "mw_step list \<Rightarrow> nextFn \<Rightarrow> updater \<Rightarrow> unit js" where
  "run_steps [] next updater s = (Inr (), s)"
| "run_steps (MwLog msg # steps) next updater s =
     run_steps steps next updater (console_log msg (getState s) s)"
| "run_steps (MwNext f # steps) next updater s =
     (case next (f updater) s of
        (Inl e, s1) \<Rightarrow> (Inl e, s1)
      | (Inr u, s1) \<Rightarrow> run_steps steps next updater s1)"
| "run_steps (MwThrow e # steps) next updater s = (Inl e, s)"



fun calls_next :: "mw_step list \<Rightarrow> bool" where
  "calls_next [] = False"
| "calls_next (MwLog msg # steps) = calls_next steps"
| "calls_next (MwNext f # steps) = True"
| "calls_next (MwThrow e # steps) = False"



section \<open>Notions used by the properties\<close>

text \<open>How often the listener \<open>l\<close> was called in a trace.\<close>

definition is_call_of :: "nat \<Rightarrow> event \<Rightarrow> bool" where
  "is_call_of l e = (case e of ListenerCall i v \<Rightarrow> i = l | _ \<Rightarrow> False)"

definition calls_of :: "nat \<Rightarrow> event list \<Rightarrow> nat" where
  "calls_of l tr = length (filter (is_call_of l) tr)"

text \<open>
  The part of the store that only \<open>setState\<close>, \<open>subscribe\<close>, \<open>destroy\<close>
  and the notification of listeners change: reading through a proxy and
  comparing values touch the heap, the proxy cache and the console only.
\<close>

definition same_core :: "store \<Rightarrow> store \<Rightarrow> bool" where
  "same_core s s' =
     (trace s' = trace s \<and> state s' = state s \<and> listeners s' = listeners s
      \<and> plugins s' = plugins s \<and> reactiveState s' = reactiveState s
      \<and> stack_limit s' = stack_limit s \<and> self s' = self s)"

text \<open>
  Two values are equal by value, to the depth \<open>d\<close>: they are the same
  primitive or the same object, or they are ordinary objects of the same kind
  (both arrays or neither) with the same number of own keys, every key of the
  first is a key of the second, and what the two hold under it is equal by
  value to the depth \<open>d - 1\<close>.
\<close>

fun same_value :: "nat \<Rightarrow> store \<Rightarrow> jsval \<Rightarrow> jsval \<Rightarrow> bool"
  and same_props :: "nat \<Rightarrow> store \<Rightarrow> addr \<Rightarrow> addr \<Rightarrow> string list \<Rightarrow> string list \<Rightarrow> bool"
where
  "same_value 0 s a b = strict_eq a b"
| "same_value (Suc d) s a b =
     (strict_eq a b
      \<or> (case a of
            VRef x \<Rightarrow>
              (case b of
                 VRef y \<Rightarrow>
                   (case obj_at s x of
                      Some (Plain oa) \<Rightarrow>
                        (case obj_at s y of
                           Some (Plain ob) \<Rightarrow>
                             is_array oa = is_array ob
                             \<and> length (props oa) = length (props ob)
                             \<and> same_props d s x y (map fst (props oa)) (map fst (props ob))
                         | _ \<Rightarrow> False)
                    | _ \<Rightarrow> False)
               | _ \<Rightarrow> False)
          | _ \<Rightarrow> False))"
| "same_props d s x y [] kb = True"
| "same_props d s x y (k # ks) kb =
     (k \<in> set kb
      \<and> (case raw_get s x k of
            Inr va \<Rightarrow> (case raw_get s y k of Inr vb \<Rightarrow> same_value d s va vb | Inl e \<Rightarrow> False)
          | Inl e \<Rightarrow> False)
      \<and> same_props d s x y ks kb)"

text \<open>What a commit adds to the trace and to the console.\<close>

definition listener_events :: "listener list \<Rightarrow> jsval \<Rightarrow> event list" where
  "listener_events ls v = map (\<lambda>l. ListenerCall (lid l) v) ls"

definition listener_errors :: "listener list \<Rightarrow> jsval \<Rightarrow> log_entry list" where
  "listener_errors ls v =
     List.map_filter (\<lambda>l. map_option (LogError ''[StoreCore] Error in listener:'') (lthrows l v)) ls"

definition after_events :: "plugin list \<Rightarrow> jsval \<Rightarrow> jsval \<Rightarrow> event list" where
  "after_events ps newState oldState =
     List.map_filter
       (\<lambda>p. map_option (\<lambda>f. AfterUpdate (pid p) newState oldState) (onAfterUpdate p)) ps"

definition after_errors :: "plugin list \<Rightarrow> jsval \<Rightarrow> jsval \<Rightarrow> log_entry list" where
  "after_errors ps newState oldState =
     List.map_filter
       (\<lambda>p. case onAfterUpdate p of
              None \<Rightarrow> None
            | Some f \<Rightarrow> map_option (LogError ''[StoreCore] Error in plugin onAfterUpdate:'')
                         (f newState oldState)) ps"

definition destroy_events :: "plugin list \<Rightarrow> event list" where
  "destroy_events ps = List.map_filter (\<lambda>p. map_option (\<lambda>r. OnDestroy (pid p)) (onDestroy p)) ps"

definition destroy_throws :: "plugin \<Rightarrow> bool" where
  "destroy_throws p = (case onDestroy p of Some (Some e) \<Rightarrow> True | _ \<Rightarrow> False)"

text \<open>
  The plugins that \<open>destroy\<close> reaches, and what it returns: the loop over the
  plugins has no handler, so it ends with the first \<open>onDestroy\<close> that throws.
\<close>

fun destroy_reached :: "plugin list \<Rightarrow> plugin list" where
  "destroy_reached [] = []"
| "destroy_reached (p # ps) = (if destroy_throws p then [p] else p # destroy_reached ps)"

fun destroy_result :: "plugin list \<Rightarrow> error + unit" where
  "destroy_result [] = Inr ()"
| "destroy_result (p # ps) =
     (case onDestroy p of Some (Some e) \<Rightarrow> Inl e | _ \<Rightarrow> destroy_result ps)"





text \<open>
  The proxy cache is exact when its entries are the proxies \<open>makeReactive\<close>
  created: \<open>a\<close> is mapped to \<open>p\<close> if and only if the heap holds at \<open>p\<close>
  a proxy of \<open>a\<close> with the nested handler.
\<close>

definition cache_inv :: "store \<Rightarrow> bool" where
  "cache_inv s =
     (\<forall>a p. (proxyCache s a = Some p) = (obj_at s p = Some (ProxyObj a NestedHandler)))"

text \<open>
  What an operation of the reactive view keeps: an exact cache stays exact,
  and no cache entry and no proxy in the heap is removed or replaced.
\<close>

definition wraps_kept :: "store \<Rightarrow> store \<Rightarrow> bool" where
  "wraps_kept s s' =
     ((cache_inv s \<longrightarrow> cache_inv s')
      \<and> (\<forall>a p. proxyCache s a = Some p \<longrightarrow> proxyCache s' a = Some p)
      \<and> (\<forall>p a h. obj_at s p = Some (ProxyObj a h) \<longrightarrow> obj_at s' p = Some (ProxyObj a h)))"

definition is_nested_proxy :: "jsobj \<Rightarrow> bool" where
  "is_nested_proxy ob = (case ob of ProxyObj a NestedHandler \<Rightarrow> True | _ \<Rightarrow> False)"

section \<open>Example stores\<close>

definition plain_object :: "(string \<times> jsval) list \<Rightarrow> jsobj" where
  "plain_object ps = Plain \<lparr>is_array = False, len = 0, props = ps, integrity = Extensible\<rparr>"

definition array_object :: "jsval list \<Rightarrow> jsobj" where
  "array_object xs =
     Plain \<lparr>is_array = True, len = length xs,
            props = zip (map string_of_nat [0 ..< length xs]) xs,
            integrity = Extensible\<rparr>"

definition quiet :: "nat \<Rightarrow> listener" where
  "quiet n = \<lparr>lid = n, lthrows = (\<lambda>v. None)\<rparr>"

definition failing :: "nat \<Rightarrow> listener" where
  "failing n = \<lparr>lid = n, lthrows = (\<lambda>v. Some (Thrown ''listener failed''))\<rparr>"

definition observer_plugin :: plugin where
  "observer_plugin =
     \<lparr>pid = 7, onInit = None, onBeforeUpdate = Some (\<lambda>newState oldState. Inr VUndef),
      onAfterUpdate = Some (\<lambda>newState oldState. None), onSubscribe = None, onDestroy = Some None\<rparr>"

text \<open>
  A base store over \<open>{count: 0}\<close> (address 0) with one plugin and the
  listeners 1 (which throws) and 2; the heap also holds the objects
  \<open>{count: 0}\<close> (address 1) and \<open>{count: 1}\<close> (address 2), which an updater
  can return.
\<close>

definition counter_core :: store where
  "counter_core =
     \<lparr>heap = [plain_object [(''count'', VNum 0)], plain_object [(''count'', VNum 0)],
              plain_object [(''count'', VNum 1)], StoreObj],
      self = 3, state = VRef 0, listeners = [failing 1, quiet 2],
      plugins = [observer_plugin], reactiveState = VUndef, proxyCache = Map.empty,
      trace = [], console = [], stack_limit = 16\<rparr>"

text \<open>
  The same store with two listeners that return, and a base store over
  \<open>{user: {name: 'a'}}\<close> (addresses 1 and 0) with one listener, whose heap
  also holds a second \<open>{user: {name: 'a'}}\<close> (addresses 3 and 2), allocated
  apart at both levels.
\<close>

definition quiet_core :: store where
  "quiet_core = counter_core\<lparr>listeners := [quiet 1, quiet 2]\<rparr>"

definition profile_core :: store where
  "profile_core =
     \<lparr>heap = [plain_object [(''name'', VStr ''a'')], plain_object [(''user'', VRef 0)],
              plain_object [(''name'', VStr ''a'')], plain_object [(''user'', VRef 2)],
              StoreObj],
      self = 4, state = VRef 1, listeners = [quiet 1], plugins = [],
      reactiveState = VUndef, proxyCache = Map.empty, trace = [], console = [],
      stack_limit = 16\<rparr>"

text \<open>
  The same store with a second plugin, registered first, whose only hook is an
  \<open>onDestroy\<close> that throws.
\<close>

definition failing_plugin :: plugin where
  "failing_plugin =
     \<lparr>pid = 8, onInit = None, onBeforeUpdate = None, onAfterUpdate = None,
      onSubscribe = None, onDestroy = Some (Some (Thrown ''destroy failed''))\<rparr>"

definition guarded_core :: store where
  "guarded_core = counter_core\<lparr>plugins := [failing_plugin, observer_plugin]\<rparr>"








text \<open>
  Reactive stores, each with the listener 1 subscribed: over \<open>{count: 0}\<close>,
  over the array \<open>[1, 2, 3]\<close> as the root state, and over
  \<open>{items: [1, 2, 3]}\<close>, where the array is nested.
\<close>

definition counter_reactive :: store where
  "counter_reactive =
     snd (subscribe (quiet 1)
            (snd (new_ReactiveStore [plain_object [(''count'', VNum 0)]] 16 (VRef 0))))"

definition list_reactive :: store where
  "list_reactive =
     snd (subscribe (quiet 1)
            (snd (new_ReactiveStore [array_object [VNum 1, VNum 2, VNum 3]] 16 (VRef 0))))"

definition items_reactive :: store where
  "items_reactive =
     snd (subscribe (quiet 1)
            (snd (new_ReactiveStore
                    [array_object [VNum 1, VNum 2, VNum 3], plain_object [(''items'', VRef 0)]]
                    16 (VRef 1))))"

text \<open>The nested array of \<open>items_reactive\<close>, as read through the reactive view.\<close>

definition items_view :: "store \<Rightarrow> jsval" where
  "items_view s = (case fst (getProperty ''items'' s) of Inr v \<Rightarrow> v | Inl e \<Rightarrow> VUndef)"

definition items_read :: store where
  "items_read = snd (getProperty ''items'' items_reactive)"

definition frozen_object :: "(string \<times> jsval) list \<Rightarrow> jsobj" where
  "frozen_object ps = Plain \<lparr>is_array = False, len = 0, props = ps, integrity = Frozen\<rparr>"

text \<open>
  Reactive stores over \<open>{config: Object.freeze({inner: {}})}\<close>, where the
  frozen object is nested, and over \<open>Object.freeze({inner: {}})\<close> itself.
\<close>

definition frozen_reactive :: store where
  "frozen_reactive =
     snd (subscribe (quiet 1)
            (snd (new_ReactiveStore
                    [plain_object [], frozen_object [(''inner'', VRef 0)],
                     plain_object [(''config'', VRef 1)]]
                    16 (VRef 2))))"

definition frozen_root_reactive :: store where
  "frozen_root_reactive =
     snd (subscribe (quiet 1)
            (snd (new_ReactiveStore
                    [plain_object [], frozen_object [(''inner'', VRef 0)]] 16 (VRef 1))))"

text \<open>The frozen object of \<open>frozen_reactive\<close>, as read through the reactive view.\<close>

definition config_view :: "store \<Rightarrow> jsval" where
  "config_view s = (case fst (getProperty ''config'' s) of Inr v \<Rightarrow> v | Inl e \<Rightarrow> VUndef)"

definition config_read :: store where
  "config_read = snd (getProperty ''config'' frozen_reactive)"

text \<open>
  The store over \<open>{count: 0}\<close> after \<open>store.setProperty('me', initialState)\<close>,
  where \<open>initialState\<close> is the object the store was created with.
\<close>

definition self_reference :: store where
  "self_reference = snd (setProperty ''me'' (VRef 0) counter_reactive)"

section \<open>Frame properties of reading and comparing\<close>

lemma same_core_refl [simp]: "same_core s s"
  by (simp add: same_core_def)

lemma same_core_trans: "same_core s s1 \<Longrightarrow> same_core s1 s2 \<Longrightarrow> same_core s s2"
  by (simp add: same_core_def)

lemma put_obj_same [simp]: "same_core s (put_obj a ob s)"
  by (simp add: same_core_def put_obj_def)

lemma console_error_same [simp]: "same_core s (console_error m e s)"
  by (simp add: same_core_def console_error_def)

lemma alloc_same: "alloc ob s = (a, s') \<Longrightarrow> same_core s s'"
  by (auto simp: same_core_def alloc_def)

lemma raw_set_same: "raw_set a k v s = (r, s') \<Longrightarrow> same_core s s'"
  by (auto simp: raw_set_def split: option.splits jsobj.splits if_splits jsval.splits)

lemma raw_delete_same: "raw_delete a k s = (r, s') \<Longrightarrow> same_core s s'"
  by (auto simp: raw_delete_def split: option.splits jsobj.splits if_splits)

lemma new_Proxy_same: "new_Proxy v h s = (r, s') \<Longrightarrow> same_core s s'"
  by (auto simp: new_Proxy_def alloc_def same_core_def split: option.splits jsobj.splits if_splits jsval.splits)

lemma makeReactive_same: "makeReactive v s = (r, s') \<Longrightarrow> same_core s s'"
  unfolding makeReactive_def
  by (auto simp: same_core_def console_error_def split: option.splits if_splits jsval.splits prod.splits sum.splits dest!: new_Proxy_same)

lemma read_and_wrap_same: "read_and_wrap t k s = (r, s') \<Longrightarrow> same_core s s'"
  unfolding read_and_wrap_def
  by (auto split: sum.splits bool.splits prod.splits dest!: makeReactive_same raw_set_same intro: same_core_trans)

lemma root_get_same: "root_get t k s = (r, s') \<Longrightarrow> same_core s s'"
  unfolding root_get_def
  by (auto split: if_splits dest: read_and_wrap_same)

lemma nested_get_same: "nested_get t k s = (r, s') \<Longrightarrow> same_core s s'"
  unfolding nested_get_def
  by (auto split: if_splits sum.splits prod.splits dest: read_and_wrap_same alloc_same)

lemma js_get_same: "js_get v k s = (r, s') \<Longrightarrow> same_core s s'"
  unfolding js_get_def
  by (auto split: jsval.splits option.splits jsobj.splits handler.splits dest: root_get_same nested_get_same)

text \<open>
  Whatever relation between stores every property read respects, and is
  reflexive and transitive, \<open>deepEqual\<close> respects too.
\<close>

lemma deepEqual_rel:
  assumes rel_refl: "\<And>s. R s s"
    and rel_trans: "\<And>s s1 s2. R s s1 \<Longrightarrow> R s1 s2 \<Longrightarrow> R s s2"
    and rel_get: "\<And>v k s r s'. js_get v k s = (r, s') \<Longrightarrow> R s s'"
  shows "deepEqual n a b s = (r, s') \<Longrightarrow> R s s'"
    and "deepEqual_keys n ks kb a b s = (rb, s') \<Longrightarrow> R s s'"
proof (induction n a b s and n ks kb a b s arbitrary: r s' and rb s' rule: deepEqual_deepEqual_keys.induct)
  case (1 a b s)
  then show ?case by (simp add: rel_refl)
next
  case (2 n a b s)
  then show ?case
    by (auto simp: rel_refl split: if_splits sum.splits)
next
  case (3 n keysB a b s)
  then show ?case by (simp add: rel_refl)
next
  case (4 n key keys keysB a b s)
  show ?case
  proof (cases "key \<in> set keysB")
    case False
    with 4(3) show ?thesis by (simp add: rel_refl)
  next
    case True
    then have inB: "\<not> key \<notin> set keysB" by simp
    obtain ra s1 where ga: "(ra, s1) = js_get a key s" by (cases "js_get a key s") auto
    have c01: "R s s1" using ga rel_get[of a key s ra s1] by simp
    show ?thesis
    proof (cases ra)
      case (Inl e)
      with 4(3) True ga[symmetric] c01 show ?thesis by auto
    next
      case ra: (Inr va)
      obtain rb' s2 where gb: "(rb', s2) = js_get b key s1" by (cases "js_get b key s1") auto
      have c12: "R s1 s2" using gb rel_get[of b key s1 rb' s2] by simp
      show ?thesis
      proof (cases rb')
        case (Inl e)
        with 4(3) True ga[symmetric] gb[symmetric] ra c01 c12 show ?thesis
          by (auto intro: rel_trans)
      next
        case rb: (Inr vb)
        obtain rd s3 where de: "deepEqual n va vb s2 = (rd, s3)" by (cases "deepEqual n va vb s2")
        have c23: "R s2 s3" using 4(1)[OF inB ga ra gb rb de] .
        have c03: "R s s3" using c01 c12 c23 by (blast intro: rel_trans)
        show ?thesis
        proof (cases rd)
          case (Inl e)
          with 4(3) True ga[symmetric] gb[symmetric] ra rb de c03 show ?thesis by auto
        next
          case rd: (Inr eq)
          show ?thesis
          proof (cases eq)
            case False
            with 4(3) True ga[symmetric] gb[symmetric] ra rb de c03 rd show ?thesis by auto
          next
            case True
            then have eqT: "eq = True" by simp
            have "deepEqual_keys n keys keysB a b s3 = (rb, s')"
              using 4(3) \<open>key \<in> set keysB\<close> ga[symmetric] gb[symmetric] ra \<open>rb' = Inr vb\<close> de rd True by simp
            then have "R s3 s'"
              using 4(2)[OF inB ga ra gb \<open>rb' = Inr vb\<close> de[symmetric] rd eqT] by simp
            with c03 show ?thesis by (blast intro: rel_trans)
          qed
        qed
      qed
    qed
  qed
qed

lemma deepEqual_same:
  "deepEqual n a b s = (r, s') \<Longrightarrow> same_core s s'"
  "deepEqual_keys n ks kb a b s = (rb, s') \<Longrightarrow> same_core s s'"
  by (rule deepEqual_rel[where R=same_core, OF same_core_refl same_core_trans js_get_same];
      assumption)+

section \<open>Properties of StoreCore\<close>

lemma deepEqual_numeral:
  "deepEqual (numeral k) a b s =
     (if strict_eq a b then (Inr True, s)
      else if nullish a \<or> nullish b then (Inr False, s)
      else if \<not> (typeof_object s a \<and> typeof_object s b) then (Inr False, s)
      else if js_isArray s a \<noteq> js_isArray s b then (Inr False, s)
      else case js_keys s a of
        Inl e \<Rightarrow> (Inl e, s)
      | Inr keysA \<Rightarrow>
          (case js_keys s b of
             Inl e \<Rightarrow> (Inl e, s)
           | Inr keysB \<Rightarrow>
               (if length keysA \<noteq> length keysB then (Inr False, s)
                else deepEqual_keys (pred_numeral k) keysA keysB a b s)))"
  using deepEqual.simps(2)[of "pred_numeral k" a b s] by (simp only: numeral_eq_Suc)

lemma calls_of_append [simp]: "calls_of l (xs @ ys) = calls_of l xs + calls_of l ys"
  by (simp add: calls_of_def)

lemma calls_of_Nil [simp]: "calls_of l [] = 0"
  by (simp add: calls_of_def)

lemma call_listeners_caught_eq:
  "call_listeners_caught ls v s =
     s\<lparr>trace := trace s @ listener_events ls v, console := console s @ listener_errors ls v\<rparr>"
proof (induction ls arbitrary: s)
  case Nil
  show ?case by (simp add: listener_events_def listener_errors_def)
next
  case (Cons l ls)
  show ?case
    by (cases "lthrows l v")
       (simp_all add: Cons.IH listener_events_def listener_errors_def console_error_def)
qed

lemma onAfterUpdate_all_eq:
  "onAfterUpdate_all ps n ol s =
     s\<lparr>trace := trace s @ after_events ps n ol, console := console s @ after_errors ps n ol\<rparr>"
proof (induction ps arbitrary: s)
  case Nil
  show ?case by (simp add: after_events_def after_errors_def)
next
  case (Cons p ps)
  show ?case
  proof (cases "onAfterUpdate p")
    case None
    then show ?thesis
      by (simp add: Cons.IH after_events_def after_errors_def)
  next
    case (Some f)
    then show ?thesis
      by (cases "f n ol")
         (simp_all add: Cons.IH after_events_def after_errors_def console_error_def)
  qed
qed

lemma commit_eq:
  "commit n ol s =
     s\<lparr>state := n,
       trace := trace s @ listener_events (listeners s) n @ after_events (plugins s) n ol,
       console := console s @ listener_errors (listeners s) n @ after_errors (plugins s) n ol\<rparr>"
  by (simp add: commit_def call_listeners_caught_eq onAfterUpdate_all_eq)

lemma onBeforeUpdate_all_frame:
  "onBeforeUpdate_all ps v ol s = (r, s') \<Longrightarrow>
     state s' = state s \<and> listeners s' = listeners s \<and> plugins s' = plugins s
     \<and> heap s' = heap s \<and> calls_of l (trace s') = calls_of l (trace s)"
proof (induction ps arbitrary: v s)
  case Nil
  then show ?case by simp
next
  case (Cons p ps)
  show ?case
  proof (cases "onBeforeUpdate p")
    case None
    with Cons show ?thesis by simp
  next
    case (Some f)
    show ?thesis
    proof (cases "f v ol")
      case (Inl e)
      with Some Cons.prems show ?thesis
        by (auto simp: console_error_def calls_of_def is_call_of_def)
    next
      case (Inr res)
      with Some Cons.prems
      have "onBeforeUpdate_all ps (if res = VUndef then v else res) ol
              (s\<lparr>trace := trace s @ [BeforeUpdate (pid p) v ol]\<rparr>) = (r, s')"
        by simp
      from Cons.IH[OF this] show ?thesis
        by (simp add: calls_of_def is_call_of_def)
    qed
  qed
qed

text \<open>
  Claim C6.  When the updater returns \<open>null\<close> or \<open>undefined\<close>,
  \<open>StoreCore.setState\<close> throws the error \<open>State cannot be null or undefined\<close>
  to its caller, and the store is left as the updater left it but for the
  console line of the \<open>catch\<close> block: the stored state is unchanged, and the
  trace is unchanged, so no listener and no hook was called.
\<close>

theorem C6_invalid_state_is_atomic:
  assumes "updater (state s) s = (Inr v, s1)" and "nullish v"
  shows "setState updater s
           = (Inl StateInvalid, console_error ''[StoreCore] Error in setState:'' StateInvalid s1)
         \<and> state (snd (setState updater s)) = state s1
         \<and> trace (snd (setState updater s)) = trace s1
         \<and> heap (snd (setState updater s)) = heap s1"
  using assms by (simp add: setState_def setState_try_def console_error_def)

theorem C6_witness:
  "nullish VNull
   \<and> fst (setState (returning VNull) counter_core) = Inl StateInvalid
   \<and> state (snd (setState (returning VNull) counter_core)) = VRef 0
   \<and> trace (snd (setState (returning VNull) counter_core)) = []"
  using C6_invalid_state_is_atomic[of "returning VNull" counter_core VNull counter_core]
  by (simp add: returning_def nullish_def counter_core_def console_error_def)

lemma hasChanged_same: "hasChanged n ol s = (r, s') \<Longrightarrow> same_core s s'"
  by (auto simp: hasChanged_def split: if_splits prod.splits sum.splits dest: deepEqual_same(1))

lemma setState_commit:
  assumes "updater (state s) s = (Inr v, s1)" and "\<not> nullish v"
    and "onBeforeUpdate_all (plugins s1) v (state s) s1 = (Inr v', s2)"
    and "hasChanged v' (state s) s2 = (Inr ch, s3)"
  shows "setState updater s = (Inr (), if ch then commit v' (state s) s3 else s3)"
  using assms by (simp add: setState_def setState_try_def)

text \<open>
  Values that are equal by value are equal for \<open>deepEqual\<close>, when the call
  stack is deeper than they are; the comparison leaves the store as it is.
\<close>

lemma js_get_on_plain:
  "obj_at s x = Some (Plain ob) \<Longrightarrow> js_get (VRef x) k s = (raw_get s x k, s)"
  by (simp add: js_get_def)

lemma same_props_deepEqual_keys:
  assumes vals: "\<And>a b. same_value d s a b \<Longrightarrow> deepEqual m a b s = (Inr True, s)"
    and "obj_at s x = Some (Plain oa)" and "obj_at s y = Some (Plain ob)"
  shows "same_props d s x y ks kb \<Longrightarrow>
           deepEqual_keys m ks kb (VRef x) (VRef y) s = (Inr True, s)"
proof (induction ks)
  case Nil
  show ?case by simp
next
  case (Cons k ks)
  from Cons.prems obtain va vb where k: "k \<in> set kb"
    and va: "raw_get s x k = Inr va" and vb: "raw_get s y k = Inr vb"
    and sv: "same_value d s va vb" and rest: "same_props d s x y ks kb"
    by (auto split: sum.splits)
  from vals[OF sv] Cons.IH[OF rest] k va vb
  show ?case by (simp add: js_get_on_plain[OF assms(2)] js_get_on_plain[OF assms(3)])
qed

lemma same_value_Suc:
  assumes "same_value (Suc d) s a b" and "\<not> strict_eq a b"
  shows "\<exists>x y oa ob. a = VRef x \<and> b = VRef y
           \<and> obj_at s x = Some (Plain oa) \<and> obj_at s y = Some (Plain ob)
           \<and> is_array oa = is_array ob \<and> length (props oa) = length (props ob)
           \<and> same_props d s x y (map fst (props oa)) (map fst (props ob))"
proof -
  from assms obtain x where a: "a = VRef x" by (cases a) simp_all
  from assms a obtain y where b: "b = VRef y" by (cases b) simp_all
  from assms a b obtain oa where oa: "obj_at s x = Some (Plain oa)"
    by (cases "obj_at s x") (auto split: jsobj.split_asm)
  from assms a b oa obtain ob where ob: "obj_at s y = Some (Plain ob)"
    by (cases "obj_at s y") (auto split: jsobj.split_asm)
  from assms a b oa ob show ?thesis by simp
qed

lemma same_value_deepEqual:
  "same_value d s a b \<Longrightarrow> d < n \<Longrightarrow> deepEqual n a b s = (Inr True, s)"
proof (induction d arbitrary: a b n)
  case 0
  then obtain m where "n = Suc m" by (cases n) auto
  with 0 show ?case by simp
next
  case (Suc d)
  from Suc.prems(2) obtain m where n: "n = Suc m" and dm: "d < m" by (cases n) auto
  show ?case
  proof (cases "strict_eq a b")
    case True
    with n show ?thesis by simp
  next
    case False
    with same_value_Suc[OF Suc.prems(1)] obtain x y oa ob where ab: "a = VRef x" "b = VRef y"
      and oa: "obj_at s x = Some (Plain oa)" and ob: "obj_at s y = Some (Plain ob)"
      and kind: "is_array oa = is_array ob" and len: "length (props oa) = length (props ob)"
      and sp: "same_props d s x y (map fst (props oa)) (map fst (props ob))"
      by blast
    have below: "deepEqual m u v s = (Inr True, s)" if "same_value d s u v" for u v
      using Suc.IH[OF that dm] .
    have "deepEqual_keys m (map fst (props oa)) (map fst (props ob)) (VRef x) (VRef y) s
            = (Inr True, s)"
      using below oa ob sp by (rule same_props_deepEqual_keys)
    with False n ab oa ob kind len show ?thesis
      by (simp add: nullish_def typeof_object_def js_isArray_def raw_isArray_def
               js_keys_def raw_keys_def)
  qed
qed

lemma same_value_object:
  "same_value d s a b \<Longrightarrow> \<not> strict_eq a b \<Longrightarrow> typeof_object s a \<and> a \<noteq> VNull"
proof (cases d)
  case 0
  assume "same_value d s a b" and "\<not> strict_eq a b"
  with 0 show ?thesis by simp
next
  case (Suc d')
  assume "same_value d s a b" and ne: "\<not> strict_eq a b"
  with Suc have "same_value (Suc d') s a b" by simp
  from same_value_Suc[OF this ne] show ?thesis
    by (auto simp: typeof_object_def)
qed

lemma same_value_hasChanged:
  assumes "same_value d s a b" and "d < stack_limit s"
  shows "hasChanged a b s = (Inr False, s)"
proof (cases "typeof_object s a \<and> a \<noteq> VNull")
  case True
  with same_value_deepEqual[OF assms] show ?thesis by (simp add: hasChanged_def)
next
  case False
  with same_value_object[OF assms(1)] have "strict_eq a b" by blast
  with False show ?thesis by (auto simp: hasChanged_def)
qed

text \<open>
  Claim C5, for the copy of the class that imports \<open>deepEqual\<close>.  Let the
  updater return a value that is not \<open>null\<close> or \<open>undefined\<close>, and let
  \<open>v'\<close> be the new state after the plugins' \<open>onBeforeUpdate\<close>.  When \<open>v'\<close>
  is an object, \<open>setState\<close> commits if and only if \<open>deepEqual v' oldState\<close>
  is false: on \<open>true\<close> the stored state and the number of calls of every
  listener are what they were, on \<open>false\<close> the store is the committed one.
  When \<open>v'\<close> is a primitive, \<open>!==\<close> decides.  A commit stores \<open>v'\<close>, calls
  every listener with it and then every \<open>onAfterUpdate\<close> hook.  When \<open>v'\<close>
  is equal by value to the old state, to a depth below that of the call
  stack, and be it allocated apart at every level, \<open>setState\<close> commits
  nothing: the stored state and the number of calls of every listener are
  what they were.
\<close>

theorem C5_commit_iff_not_deepEqual:
  assumes "updater (state s) s = (Inr v, s1)" and "\<not> nullish v"
    and "onBeforeUpdate_all (plugins s1) v (state s) s1 = (Inr v', s2)"
  shows "(typeof_object s2 v' \<and> v' \<noteq> VNull \<longrightarrow>
            (\<forall>eq s3. deepEqual (stack_limit s2) v' (state s) s2 = (Inr eq, s3) \<longrightarrow>
               setState updater s = (Inr (), if eq then s3 else commit v' (state s) s3)
               \<and> (eq \<longrightarrow> state s3 = state s1 \<and> (\<forall>l. calls_of l (trace s3) = calls_of l (trace s1)))))
       \<and> (\<not> (typeof_object s2 v' \<and> v' \<noteq> VNull) \<longrightarrow>
            setState updater s
              = (Inr (), if strict_eq v' (state s) then s2 else commit v' (state s) s2))
       \<and> (\<forall>s3. state (commit v' (state s) s3) = v'
              \<and> trace (commit v' (state s) s3)
                  = trace s3 @ listener_events (listeners s3) v'
                      @ after_events (plugins s3) v' (state s))
       \<and> (\<forall>d. same_value d s2 v' (state s) \<and> d < stack_limit s2 \<longrightarrow>
              setState updater s = (Inr (), s2)
              \<and> state s2 = state s1 \<and> (\<forall>l. calls_of l (trace s2) = calls_of l (trace s1)))"
proof -
  have c1: "typeof_object s2 v' \<and> v' \<noteq> VNull \<longrightarrow>
            (\<forall>eq s3. deepEqual (stack_limit s2) v' (state s) s2 = (Inr eq, s3) \<longrightarrow>
               setState updater s = (Inr (), if eq then s3 else commit v' (state s) s3)
               \<and> (eq \<longrightarrow> state s3 = state s1 \<and> (\<forall>l. calls_of l (trace s3) = calls_of l (trace s1))))"
  proof (intro conjI impI allI)
    fix eq s3
    assume ob: "typeof_object s2 v' \<and> v' \<noteq> VNull"
      and de: "deepEqual (stack_limit s2) v' (state s) s2 = (Inr eq, s3)"
    then have hc: "hasChanged v' (state s) s2 = (Inr (\<not> eq), s3)"
      by (simp add: hasChanged_def)
    from setState_commit[where updater=updater and s=s, OF assms hc]
    show "setState updater s = (Inr (), if eq then s3 else commit v' (state s) s3)"
      by simp
    have fr: "same_core s2 s3" using de by (rule deepEqual_same(1))
    from onBeforeUpdate_all_frame[OF assms(3)] fr
    show "state s3 = state s1" by (simp add: same_core_def)
    fix l
    from onBeforeUpdate_all_frame[OF assms(3), of l] fr
    show "calls_of l (trace s3) = calls_of l (trace s1)" by (simp add: same_core_def)
  qed
  have c2: "\<not> (typeof_object s2 v' \<and> v' \<noteq> VNull) \<longrightarrow>
            setState updater s
              = (Inr (), if strict_eq v' (state s) then s2 else commit v' (state s) s2)"
  proof
    assume pr: "\<not> (typeof_object s2 v' \<and> v' \<noteq> VNull)"
    then have hc: "hasChanged v' (state s) s2 = (Inr (\<not> strict_eq v' (state s)), s2)"
      by (auto simp: hasChanged_def)
    from setState_commit[where updater=updater and s=s, OF assms hc]
    show "setState updater s
            = (Inr (), if strict_eq v' (state s) then s2 else commit v' (state s) s2)"
      by simp
  qed
  have c3: "\<forall>s3. state (commit v' (state s) s3) = v'
              \<and> trace (commit v' (state s) s3)
                  = trace s3 @ listener_events (listeners s3) v'
                      @ after_events (plugins s3) v' (state s)"
    by (simp add: commit_eq)
  have c4: "\<forall>d. same_value d s2 v' (state s) \<and> d < stack_limit s2 \<longrightarrow>
              setState updater s = (Inr (), s2)
              \<and> state s2 = state s1 \<and> (\<forall>l. calls_of l (trace s2) = calls_of l (trace s1))"
  proof (intro allI impI)
    fix d
    assume sv: "same_value d s2 v' (state s) \<and> d < stack_limit s2"
    then have hc: "hasChanged v' (state s) s2 = (Inr False, s2)"
      by (auto intro: same_value_hasChanged)
    from setState_commit[where updater=updater and s=s, OF assms hc]
         onBeforeUpdate_all_frame[OF assms(3)]
    show "setState updater s = (Inr (), s2)
              \<and> state s2 = state s1 \<and> (\<forall>l. calls_of l (trace s2) = calls_of l (trace s1))"
      by simp
  qed
  show ?thesis by (intro conjI c1 c2 c3 c4)
qed

lemma counter_core_fields [simp]:
  "state counter_core = VRef 0" "plugins counter_core = [observer_plugin]"
  "listeners counter_core = [failing 1, quiet 2]" "stack_limit counter_core = 16"
  "trace counter_core = []" "console counter_core = []"
  by (simp_all add: counter_core_def)

lemma counter_core_objs [simp]:
  "obj_at counter_core 0 = Some (plain_object [(''count'', VNum 0)])"
  "obj_at counter_core (Suc 0) = Some (plain_object [(''count'', VNum 0)])"
  "obj_at counter_core 2 = Some (plain_object [(''count'', VNum 1)])"
  by (simp_all add: counter_core_def obj_at_def)

lemma counter_before:
  "onBeforeUpdate_all [observer_plugin] v (VRef 0) counter_core
     = (Inr v, counter_core\<lparr>trace := [BeforeUpdate 7 v (VRef 0)]\<rparr>)"
  by (simp add: observer_plugin_def)


lemma obj_at_updates [simp]:
  "obj_at (s\<lparr>trace := tr\<rparr>) = obj_at s"
  "obj_at (s\<lparr>console := c\<rparr>) = obj_at s"
  "obj_at (s\<lparr>state := v\<rparr>) = obj_at s"
  "obj_at (s\<lparr>listeners := ls\<rparr>) = obj_at s"
  "obj_at (s\<lparr>proxyCache := pc\<rparr>) = obj_at s"
  "obj_at (s\<lparr>reactiveState := r\<rparr>) = obj_at s"
  by (simp_all add: obj_at_def fun_eq_iff)

lemmas value_tests = strict_eq_def nullish_def typeof_object_def js_isArray_def raw_isArray_def
  js_keys_def raw_keys_def js_get_def raw_get_def plain_object_def

lemma counter_equal_objects:
  "deepEqual 16 (VRef 1) (VRef 0) (counter_core\<lparr>trace := tr\<rparr>)
     = (Inr True, counter_core\<lparr>trace := tr\<rparr>)"
  by (simp add: deepEqual_numeral value_tests)

lemma counter_different_objects:
  "deepEqual 16 (VRef 2) (VRef 0) (counter_core\<lparr>trace := tr\<rparr>)
     = (Inr False, counter_core\<lparr>trace := tr\<rparr>)"
  by (simp add: deepEqual_numeral value_tests)

theorem C5_witness:
  "fst (setState (returning (VRef 1)) counter_core) = Inr ()
   \<and> state (snd (setState (returning (VRef 1)) counter_core)) = VRef 0
   \<and> calls_of 1 (trace (snd (setState (returning (VRef 1)) counter_core))) = 0
   \<and> calls_of 2 (trace (snd (setState (returning (VRef 1)) counter_core))) = 0
   \<and> state (snd (setState (returning (VRef 2)) counter_core)) = VRef 2
   \<and> calls_of 2 (trace (snd (setState (returning (VRef 2)) counter_core))) = 1
   \<and> state (snd (setState (returning (VNum 5)) counter_core)) = VNum 5
   \<and> same_value 2 profile_core (VRef 3) (VRef 1)
   \<and> raw_get profile_core 3 ''user'' = Inr (VRef 2)
   \<and> raw_get profile_core 1 ''user'' = Inr (VRef 0)
   \<and> fst (setState (returning (VRef 3)) profile_core) = Inr ()
   \<and> state (snd (setState (returning (VRef 3)) profile_core)) = VRef 1
   \<and> calls_of 1 (trace (snd (setState (returning (VRef 3)) profile_core))) = 0"
proof -
  have sv: "same_value 2 profile_core (VRef 3) (VRef 1)
            \<and> raw_get profile_core 3 ''user'' = Inr (VRef 2)
            \<and> raw_get profile_core 1 ''user'' = Inr (VRef 0)"
    by code_simp
  have pf: "state profile_core = VRef 1" "plugins profile_core = []"
    "stack_limit profile_core = 16" "trace profile_core = []"
    by (simp_all add: profile_core_def)
  have pup: "returning (VRef 3) (state profile_core) profile_core = (Inr (VRef 3), profile_core)"
    by (simp add: returning_def)
  have pbe: "onBeforeUpdate_all (plugins profile_core) (VRef 3) (state profile_core) profile_core
               = (Inr (VRef 3), profile_core)"
    by (simp add: pf)
  have pn: "\<not> nullish (VRef 3)" by (simp add: nullish_def)
  from C5_commit_iff_not_deepEqual[where updater="returning (VRef 3)", OF pup pn pbe] sv
  have "setState (returning (VRef 3)) profile_core = (Inr (), profile_core)"
    by (auto simp: pf)
  then have deep: "fst (setState (returning (VRef 3)) profile_core) = Inr ()
      \<and> state (snd (setState (returning (VRef 3)) profile_core)) = VRef 1
      \<and> calls_of 1 (trace (snd (setState (returning (VRef 3)) profile_core))) = 0"
    by (simp add: pf)
  have nn: "\<not> nullish (VRef 1)" "\<not> nullish (VRef 2)" "\<not> nullish (VNum 5)"
    by (simp_all add: nullish_def)
  have up: "\<And>v. returning v (state counter_core) counter_core = (Inr v, counter_core)"
    by (simp add: returning_def)
  have be: "\<And>v. onBeforeUpdate_all (plugins counter_core) v (state counter_core) counter_core
                 = (Inr v, counter_core\<lparr>trace := [BeforeUpdate 7 v (VRef 0)]\<rparr>)"
    unfolding counter_core_fields by (rule counter_before)
  have ob: "\<And>tr a. typeof_object (counter_core\<lparr>trace := tr\<rparr>) (VRef a)"
    by (simp add: typeof_object_def obj_at_def counter_core_def plain_object_def
             nth_Cons split: nat.split)
  have pr: "\<And>tr. \<not> typeof_object (counter_core\<lparr>trace := tr\<rparr>) (VNum 5)"
    by (simp add: typeof_object_def)
  from C5_commit_iff_not_deepEqual[where updater="returning (VRef 1)", OF up nn(1) be]
       ob counter_equal_objects
  have same: "setState (returning (VRef 1)) counter_core
                = (Inr (), counter_core\<lparr>trace := [BeforeUpdate 7 (VRef 1) (VRef 0)]\<rparr>)"
    by auto
  from C5_commit_iff_not_deepEqual[where updater="returning (VRef 2)", OF up nn(2) be]
       ob counter_different_objects
  have diff: "setState (returning (VRef 2)) counter_core
                = (Inr (), commit (VRef 2) (VRef 0)
                             (counter_core\<lparr>trace := [BeforeUpdate 7 (VRef 2) (VRef 0)]\<rparr>))"
    by auto
  from C5_commit_iff_not_deepEqual[where updater="returning (VNum 5)", OF up nn(3) be] pr
  have prim: "setState (returning (VNum 5)) counter_core
                = (Inr (), commit (VNum 5) (VRef 0)
                             (counter_core\<lparr>trace := [BeforeUpdate 7 (VNum 5) (VRef 0)]\<rparr>))"
    by (simp add: strict_eq_def)
  have flat: "fst (setState (returning (VRef 1)) counter_core) = Inr ()
   \<and> state (snd (setState (returning (VRef 1)) counter_core)) = VRef 0
   \<and> calls_of 1 (trace (snd (setState (returning (VRef 1)) counter_core))) = 0
   \<and> calls_of 2 (trace (snd (setState (returning (VRef 1)) counter_core))) = 0
   \<and> state (snd (setState (returning (VRef 2)) counter_core)) = VRef 2
   \<and> calls_of 2 (trace (snd (setState (returning (VRef 2)) counter_core))) = 1
   \<and> state (snd (setState (returning (VNum 5)) counter_core)) = VNum 5"
    unfolding same diff prim
    by (simp add: commit_eq calls_of_def is_call_of_def listener_events_def
             after_events_def failing_def quiet_def observer_plugin_def)
  from flat sv deep show ?thesis by blast
qed

text \<open>
  The second copy of the class commits on reference inequality: when the
  updater returns the other \<open>{count: 0}\<close>, for which \<open>deepEqual\<close> answers
  \<open>true\<close>, the new object is stored and every listener is called.
\<close>

theorem C5_counterexample:
  "fst (deepEqual 16 (VRef 1) (VRef 0) quiet_core) = Inr True
   \<and> same_value 1 quiet_core (VRef 1) (VRef 0)
   \<and> \<not> strict_eq (VRef 1) (VRef 0)
   \<and> fst (setState_013 (returning (VRef 1)) quiet_core) = Inr ()
   \<and> state (snd (setState_013 (returning (VRef 1)) quiet_core)) = VRef 1
   \<and> calls_of 1 (trace (snd (setState_013 (returning (VRef 1)) quiet_core))) = 1
   \<and> calls_of 2 (trace (snd (setState_013 (returning (VRef 1)) quiet_core))) = 1"
  by code_simp

lemma listener_events_mem:
  "l \<in> set ls \<Longrightarrow> ListenerCall (lid l) v \<in> set (listener_events ls v)"
  by (auto simp: listener_events_def)

lemma listener_errors_mem:
  "l \<in> set ls \<Longrightarrow> lthrows l v = Some e \<Longrightarrow>
     LogError ''[StoreCore] Error in listener:'' e \<in> set (listener_errors ls v)"
  by (force simp: listener_errors_def map_filter_def)

lemma calls_of_listener_events:
  "distinct (map lid ls) \<Longrightarrow> l \<in> set ls \<Longrightarrow> calls_of (lid l) (listener_events ls v) = 1"
proof (induction ls)
  case Nil
  then show ?case by simp
next
  case (Cons x xs)
  show ?case
  proof (cases "lid x = lid l")
    case True
    from Cons.prems have "lid x \<notin> lid ` set xs" by simp
    with True have "\<forall>y\<in>set xs. lid y \<noteq> lid l" by (metis imageI)
    then have "filter (is_call_of (lid l)) (listener_events xs v) = []"
      by (auto simp: filter_empty_conv listener_events_def is_call_of_def)
    with True show ?thesis
      by (simp add: calls_of_def listener_events_def is_call_of_def)
  next
    case False
    with Cons.prems have "l \<in> set xs" "distinct (map lid xs)" by auto
    with Cons.IH False show ?thesis
      by (simp add: calls_of_def listener_events_def is_call_of_def)
  qed
qed

lemma calls_of_after_events [simp]: "calls_of l (after_events ps n ol) = 0"
  by (auto simp: calls_of_def after_events_def filter_empty_conv map_filter_def is_call_of_def)

text \<open>
  Claim C7, for the copy of the class that calls each listener in a \<open>try\<close>
  block.  When \<open>setState\<close> commits, every subscribed listener is called
  with the new state, exactly once when the listeners are distinct, whether
  or not a listener throws; the exception of a listener is reported on the
  console; \<open>setState\<close> returns normally and the new value stays stored.
\<close>

theorem C7_listener_exception_isolated:
  assumes "updater (state s) s = (Inr v, s1)" and "\<not> nullish v"
    and "onBeforeUpdate_all (plugins s1) v (state s) s1 = (Inr v', s2)"
    and "hasChanged v' (state s) s2 = (Inr True, s3)"
    and "l \<in> set (listeners s3)"
  shows "fst (setState updater s) = Inr ()
       \<and> state (snd (setState updater s)) = v'
       \<and> ListenerCall (lid l) v' \<in> set (trace (snd (setState updater s)))
       \<and> trace (snd (setState updater s))
            = trace s3 @ listener_events (listeners s3) v' @ after_events (plugins s3) v' (state s)
       \<and> (distinct (map lid (listeners s3)) \<longrightarrow>
            calls_of (lid l) (trace (snd (setState updater s))) = calls_of (lid l) (trace s3) + 1)
       \<and> (\<forall>e. lthrows l v' = Some e \<longrightarrow>
            LogError ''[StoreCore] Error in listener:'' e \<in> set (console (snd (setState updater s))))"
proof -
  have eq: "setState updater s = (Inr (), commit v' (state s) s3)"
    using setState_commit[where updater=updater and s=s, OF assms(1-4)] by simp
  show ?thesis
    unfolding eq
    using assms(5)
    by (simp add: commit_eq listener_events_mem listener_errors_mem calls_of_listener_events)
qed

lemma counter_core_heap_trace [simp]:
  "heap (counter_core\<lparr>trace := tr\<rparr>) = heap counter_core"
  by simp

theorem C7_witness:
  "fst (setState (returning (VRef 2)) counter_core) = Inr ()
   \<and> state (snd (setState (returning (VRef 2)) counter_core)) = VRef 2
   \<and> lthrows (failing 1) (VRef 2) = Some (Thrown ''listener failed'')
   \<and> calls_of 1 (trace (snd (setState (returning (VRef 2)) counter_core))) = 1
   \<and> calls_of 2 (trace (snd (setState (returning (VRef 2)) counter_core))) = 1
   \<and> ListenerCall 2 (VRef 2) \<in> set (trace (snd (setState (returning (VRef 2)) counter_core)))
   \<and> LogError ''[StoreCore] Error in listener:'' (Thrown ''listener failed'')
        \<in> set (console (snd (setState (returning (VRef 2)) counter_core)))"
proof -
  let ?s2 = "counter_core\<lparr>trace := [BeforeUpdate 7 (VRef 2) (VRef 0)]\<rparr>"
  have up: "returning (VRef 2) (state counter_core) counter_core = (Inr (VRef 2), counter_core)"
    by (simp add: returning_def)
  have nn: "\<not> nullish (VRef 2)" by (simp add: nullish_def)
  have be: "onBeforeUpdate_all (plugins counter_core) (VRef 2) (state counter_core) counter_core
              = (Inr (VRef 2), ?s2)"
    unfolding counter_core_fields by (rule counter_before)
  have hc: "hasChanged (VRef 2) (state counter_core) ?s2 = (Inr True, ?s2)"
    by (simp add: hasChanged_def counter_different_objects typeof_object_def plain_object_def)
  have l1: "failing 1 \<in> set (listeners ?s2)" and l2: "quiet 2 \<in> set (listeners ?s2)"
    by simp_all
  have di: "distinct (map lid (listeners ?s2))" by (simp add: failing_def quiet_def)
  from C7_listener_exception_isolated[where updater="returning (VRef 2)", OF up nn be hc l1] di
       C7_listener_exception_isolated[where updater="returning (VRef 2)", OF up nn be hc l2]
  show ?thesis
    by (simp add: failing_def quiet_def calls_of_def is_call_of_def listener_events_def
             after_events_def observer_plugin_def)
qed

text \<open>
  The second copy of the class calls the listeners with no handler: on the
  store with the listeners 1, which throws, and 2, the exception of listener
  1 reaches the caller of \<open>setState\<close>, nothing is printed, and listener 2 is
  not called; the new value has been stored.
\<close>

theorem C7_counterexample:
  "map lid (listeners counter_core) = [1, 2]
   \<and> fst (setState_013 (returning (VRef 2)) counter_core) = Inl (Thrown ''listener failed'')
   \<and> calls_of 1 (trace (snd (setState_013 (returning (VRef 2)) counter_core))) = 1
   \<and> calls_of 2 (trace (snd (setState_013 (returning (VRef 2)) counter_core))) = 0
   \<and> console (snd (setState_013 (returning (VRef 2)) counter_core)) = []
   \<and> state (snd (setState_013 (returning (VRef 2)) counter_core)) = VRef 2"
  by code_simp

lemma onDestroy_all_eq:
  "onDestroy_all ps s
     = (destroy_result ps, s\<lparr>trace := trace s @ destroy_events (destroy_reached ps)\<rparr>)"
proof (induction ps arbitrary: s)
  case Nil
  show ?case by (simp add: destroy_events_def)
next
  case (Cons p ps)
  show ?case
  proof (cases "onDestroy p")
    case None
    then show ?thesis by (simp add: Cons.IH destroy_events_def destroy_throws_def)
  next
    case (Some r)
    then show ?thesis
      by (cases r) (simp_all add: Cons.IH destroy_events_def destroy_throws_def)
  qed
qed

lemma destroy_reached_all:
  "list_all (\<lambda>p. \<not> destroy_throws p) ps \<Longrightarrow> destroy_reached ps = ps \<and> destroy_result ps = Inr ()"
  by (induction ps) (auto simp: destroy_throws_def split: option.splits)

lemma onBeforeUpdate_all_trace_grows:
  "onBeforeUpdate_all ps v ol s = (r, s') \<Longrightarrow> \<exists>evs. trace s' = trace s @ evs"
proof (induction ps arbitrary: v s)
  case Nil
  then show ?case by simp
next
  case (Cons p ps)
  show ?case
  proof (cases "onBeforeUpdate p")
    case None
    with Cons show ?thesis by simp
  next
    case (Some f)
    show ?thesis
    proof (cases "f v ol")
      case (Inl e)
      with Some Cons.prems show ?thesis by (auto simp: console_error_def)
    next
      case (Inr res)
      with Some Cons.prems
      have "onBeforeUpdate_all ps (if res = VUndef then v else res) ol
              (s\<lparr>trace := trace s @ [BeforeUpdate (pid p) v ol]\<rparr>) = (r, s')"
        by simp
      from Cons.IH[OF this] show ?thesis by auto
    qed
  qed
qed

lemma onBeforeUpdate_all_called:
  "onBeforeUpdate_all ps v ol s = (Inr v', s') \<Longrightarrow> p \<in> set ps \<Longrightarrow> onBeforeUpdate p = Some f
     \<Longrightarrow> \<exists>x. BeforeUpdate (pid p) x ol \<in> set (trace s')"
proof (induction ps arbitrary: v s)
  case Nil
  then show ?case by simp
next
  case (Cons q ps)
  show ?case
  proof (cases "onBeforeUpdate q")
    case None
    with Cons.prems have "p \<in> set ps" "onBeforeUpdate_all ps v ol s = (Inr v', s')" by auto
    with Cons.IH Cons.prems(3) show ?thesis by blast
  next
    case (Some g)
    show ?thesis
    proof (cases "g v ol")
      case (Inl e)
      with Some Cons.prems show ?thesis by simp
    next
      case (Inr res)
      let ?s1 = "s\<lparr>trace := trace s @ [BeforeUpdate (pid q) v ol]\<rparr>"
      from Inr Some Cons.prems(1)
      have rest: "onBeforeUpdate_all ps (if res = VUndef then v else res) ol ?s1 = (Inr v', s')"
        by simp
      show ?thesis
      proof (cases "p = q")
        case True
        from onBeforeUpdate_all_trace_grows[OF rest]
        obtain evs where "trace s' = trace ?s1 @ evs" by blast
        with True show ?thesis by auto
      next
        case False
        with Cons.prems have "p \<in> set ps" by simp
        from Cons.IH[OF rest this Cons.prems(3)] show ?thesis .
      qed
    qed
  qed
qed

lemma after_events_mem:
  "p \<in> set ps \<Longrightarrow> onAfterUpdate p = Some f \<Longrightarrow> AfterUpdate (pid p) n ol \<in> set (after_events ps n ol)"
  by (force simp: after_events_def map_filter_def)

text \<open>
  Claim C10.  \<open>destroy\<close> empties the listener set and calls the plugins'
  \<open>onDestroy\<close> in the order of registration, up to the first that throws,
  whose exception it passes on; when none throws it returns normally and all
  of them have been called.  In every case the stored state, the plugins, the
  heap and the console are what they were.  A later \<open>setState\<close> whose updater
  produces a changed value commits as on a live store: it returns normally,
  \<open>getState\<close> gives the new value, every \<open>onBeforeUpdate\<close> and every
  \<open>onAfterUpdate\<close> hook is called, and the console receives nothing but the
  reports of listeners and hooks that throw.
\<close>

theorem C10_destroy_does_not_disable:
  "destroy s = (destroy_result (plugins s),
                s\<lparr>listeners := [],
                  trace := trace s @ destroy_events (destroy_reached (plugins s))\<rparr>)
   \<and> state (snd (destroy s)) = state s \<and> plugins (snd (destroy s)) = plugins s
   \<and> heap (snd (destroy s)) = heap s \<and> console (snd (destroy s)) = console s
   \<and> listeners (snd (destroy s)) = []
   \<and> (list_all (\<lambda>p. \<not> destroy_throws p) (plugins s) \<longrightarrow>
         fst (destroy s) = Inr ()
         \<and> trace (snd (destroy s)) = trace s @ destroy_events (plugins s))
   \<and> (\<forall>updater v s1 v' s2 s3.
         updater (state s) (snd (destroy s)) = (Inr v, s1) \<and> \<not> nullish v
         \<and> onBeforeUpdate_all (plugins s1) v (state s) s1 = (Inr v', s2)
         \<and> hasChanged v' (state s) s2 = (Inr True, s3)
         \<longrightarrow> fst (setState updater (snd (destroy s))) = Inr ()
           \<and> getState (snd (setState updater (snd (destroy s)))) = v'
           \<and> (\<forall>p\<in>set (plugins s1). onBeforeUpdate p \<noteq> None \<longrightarrow>
                 (\<exists>x. BeforeUpdate (pid p) x (state s)
                        \<in> set (trace (snd (setState updater (snd (destroy s)))))))
           \<and> (\<forall>p\<in>set (plugins s3). onAfterUpdate p \<noteq> None \<longrightarrow>
                 AfterUpdate (pid p) v' (state s)
                   \<in> set (trace (snd (setState updater (snd (destroy s))))))
           \<and> console (snd (setState updater (snd (destroy s))))
               = console s3 @ listener_errors (listeners s3) v'
                   @ after_errors (plugins s3) v' (state s))"
proof -
  let ?d = "s\<lparr>listeners := [], trace := trace s @ destroy_events (destroy_reached (plugins s))\<rparr>"
  have d: "destroy s = (destroy_result (plugins s), ?d)"
    by (simp add: destroy_def onDestroy_all_eq)
  have all: "fst (destroy s) = Inr () \<and> trace (snd (destroy s)) = trace s @ destroy_events (plugins s)"
    if "list_all (\<lambda>p. \<not> destroy_throws p) (plugins s)"
    using destroy_reached_all[OF that] by (simp add: d)
  have later: "fst (setState updater ?d) = Inr ()
       \<and> getState (snd (setState updater ?d)) = v'
       \<and> (\<forall>p\<in>set (plugins s1). onBeforeUpdate p \<noteq> None \<longrightarrow>
             (\<exists>x. BeforeUpdate (pid p) x (state s) \<in> set (trace (snd (setState updater ?d)))))
       \<and> (\<forall>p\<in>set (plugins s3). onAfterUpdate p \<noteq> None \<longrightarrow>
             AfterUpdate (pid p) v' (state s) \<in> set (trace (snd (setState updater ?d))))
       \<and> console (snd (setState updater ?d))
           = console s3 @ listener_errors (listeners s3) v' @ after_errors (plugins s3) v' (state s)"
    if h: "updater (state s) ?d = (Inr v, s1)" "\<not> nullish v"
          "onBeforeUpdate_all (plugins s1) v (state s) s1 = (Inr v', s2)"
          "hasChanged v' (state s) s2 = (Inr True, s3)"
    for updater v s1 v' s2 s3
  proof -
    have st: "state ?d = state s" by simp
    have eq: "setState updater ?d = (Inr (), commit v' (state s) s3)"
      using setState_commit[where updater=updater and s="?d" and v=v and ?s1.0=s1 and v'=v'
                              and ?s2.0=s2 and ch=True and ?s3.0=s3] h
      by simp
    have fr: "same_core s2 s3" using h(4) by (rule hasChanged_same)
    have bef: "\<exists>x. BeforeUpdate (pid p) x (state s) \<in> set (trace s3)"
      if "p \<in> set (plugins s1)" "onBeforeUpdate p \<noteq> None" for p
    proof -
      from that(2) obtain f where "onBeforeUpdate p = Some f" by auto
      from onBeforeUpdate_all_called[OF h(3) that(1) this] fr
      show ?thesis by (simp add: same_core_def)
    qed
    show ?thesis
      unfolding eq
      using bef by (auto simp: commit_eq getState_def after_events_mem)
  qed
  have fields: "state (snd (destroy s)) = state s \<and> plugins (snd (destroy s)) = plugins s
   \<and> heap (snd (destroy s)) = heap s \<and> console (snd (destroy s)) = console s
   \<and> listeners (snd (destroy s)) = []"
    by (simp add: d)
  have sd: "snd (destroy s) = ?d" by (simp add: d)
  show ?thesis
    unfolding sd
    using d all later fields unfolding sd by blast
qed

lemma guarded_core_fields [simp]:
  "state guarded_core = VRef 0" "plugins guarded_core = [failing_plugin, observer_plugin]"
  "listeners guarded_core = [failing 1, quiet 2]" "stack_limit guarded_core = 16"
  "trace guarded_core = []" "console guarded_core = []"
  "heap guarded_core = heap counter_core"
  by (simp_all add: guarded_core_def)

lemma guarded_core_objs [simp]: "obj_at guarded_core = obj_at counter_core"
  by (simp add: guarded_core_def obj_at_def fun_eq_iff)

theorem C10_witness:
  "list_all (\<lambda>p. \<not> destroy_throws p) (plugins counter_core)
   \<and> fst (destroy counter_core) = Inr ()
   \<and> listeners (snd (destroy counter_core)) = []
   \<and> state (snd (destroy counter_core)) = VRef 0
   \<and> trace (snd (destroy counter_core)) = [OnDestroy 7]
   \<and> fst (setState (returning (VRef 2)) (snd (destroy counter_core))) = Inr ()
   \<and> getState (snd (setState (returning (VRef 2)) (snd (destroy counter_core)))) = VRef 2
   \<and> AfterUpdate 7 (VRef 2) (VRef 0)
        \<in> set (trace (snd (setState (returning (VRef 2)) (snd (destroy counter_core)))))
   \<and> console (snd (setState (returning (VRef 2)) (snd (destroy counter_core)))) = []
   \<and> fst (destroy guarded_core) = Inl (Thrown ''destroy failed'')
   \<and> listeners (snd (destroy guarded_core)) = []
   \<and> state (snd (destroy guarded_core)) = VRef 0
   \<and> fst (setState (returning (VRef 2)) (snd (destroy guarded_core))) = Inr ()
   \<and> getState (snd (setState (returning (VRef 2)) (snd (destroy guarded_core)))) = VRef 2
   \<and> AfterUpdate 7 (VRef 2) (VRef 0)
        \<in> set (trace (snd (setState (returning (VRef 2)) (snd (destroy guarded_core)))))"
proof -
  have nt: "list_all (\<lambda>p. \<not> destroy_throws p) (plugins counter_core)"
    by (simp add: destroy_throws_def observer_plugin_def)
  note c10 = C10_destroy_does_not_disable[of counter_core]
  let ?d = "counter_core\<lparr>listeners := [], trace := [OnDestroy 7]\<rparr>"
  let ?s2 = "?d\<lparr>trace := [OnDestroy 7, BeforeUpdate 7 (VRef 2) (VRef 0)]\<rparr>"
  have d: "snd (destroy counter_core) = ?d" "fst (destroy counter_core) = Inr ()"
    using c10 nt by (simp_all add: destroy_events_def observer_plugin_def destroy_throws_def)
  have up: "returning (VRef 2) (state counter_core) (snd (destroy counter_core)) = (Inr (VRef 2), ?d)"
    by (simp add: returning_def d)
  have nn: "\<not> nullish (VRef 2)" by (simp add: nullish_def)
  have be: "onBeforeUpdate_all (plugins ?d) (VRef 2) (state counter_core) ?d = (Inr (VRef 2), ?s2)"
    by (simp add: observer_plugin_def)
  have de: "deepEqual 16 (VRef 2) (VRef 0) ?s2 = (Inr False, ?s2)"
    by (simp add: deepEqual_numeral value_tests)
  have hc: "hasChanged (VRef 2) (state counter_core) ?s2 = (Inr True, ?s2)"
    using de by (simp add: hasChanged_def typeof_object_def plain_object_def)
  from c10 up nn be hc
  have "fst (setState (returning (VRef 2)) (snd (destroy counter_core))) = Inr ()
      \<and> getState (snd (setState (returning (VRef 2)) (snd (destroy counter_core)))) = VRef 2
      \<and> (\<forall>p\<in>set (plugins ?s2). onAfterUpdate p \<noteq> None \<longrightarrow>
            AfterUpdate (pid p) (VRef 2) (state counter_core)
              \<in> set (trace (snd (setState (returning (VRef 2)) (snd (destroy counter_core))))))
      \<and> console (snd (setState (returning (VRef 2)) (snd (destroy counter_core))))
          = console ?s2 @ listener_errors (listeners ?s2) (VRef 2)
              @ after_errors (plugins ?s2) (VRef 2) (state counter_core)"
    by blast
  then have live: "fst (setState (returning (VRef 2)) (snd (destroy counter_core))) = Inr ()
      \<and> getState (snd (setState (returning (VRef 2)) (snd (destroy counter_core)))) = VRef 2
      \<and> AfterUpdate 7 (VRef 2) (VRef 0)
            \<in> set (trace (snd (setState (returning (VRef 2)) (snd (destroy counter_core)))))
      \<and> console (snd (setState (returning (VRef 2)) (snd (destroy counter_core)))) = []"
    by (simp add: observer_plugin_def listener_errors_def after_errors_def)
  note g10 = C10_destroy_does_not_disable[of guarded_core]
  let ?g = "guarded_core\<lparr>listeners := [], trace := [OnDestroy 8]\<rparr>"
  let ?g2 = "?g\<lparr>trace := [OnDestroy 8, BeforeUpdate 7 (VRef 2) (VRef 0)]\<rparr>"
  have g: "snd (destroy guarded_core) = ?g" "fst (destroy guarded_core) = Inl (Thrown ''destroy failed'')"
    using g10 by (simp_all add: destroy_events_def failing_plugin_def destroy_throws_def)
  have gup: "returning (VRef 2) (state guarded_core) (snd (destroy guarded_core)) = (Inr (VRef 2), ?g)"
    by (simp add: returning_def g)
  have gbe: "onBeforeUpdate_all (plugins ?g) (VRef 2) (state guarded_core) ?g = (Inr (VRef 2), ?g2)"
    by (simp add: observer_plugin_def failing_plugin_def)
  have gde: "deepEqual 16 (VRef 2) (VRef 0) ?g2 = (Inr False, ?g2)"
    by (simp add: deepEqual_numeral value_tests)
  have ghc: "hasChanged (VRef 2) (state guarded_core) ?g2 = (Inr True, ?g2)"
    using gde by (simp add: hasChanged_def typeof_object_def plain_object_def)
  from g10 gup nn gbe ghc
  have "fst (setState (returning (VRef 2)) (snd (destroy guarded_core))) = Inr ()
      \<and> getState (snd (setState (returning (VRef 2)) (snd (destroy guarded_core)))) = VRef 2
      \<and> (\<forall>p\<in>set (plugins ?g2). onAfterUpdate p \<noteq> None \<longrightarrow>
            AfterUpdate (pid p) (VRef 2) (state guarded_core)
              \<in> set (trace (snd (setState (returning (VRef 2)) (snd (destroy guarded_core))))))"
    by blast
  then have dead: "fst (setState (returning (VRef 2)) (snd (destroy guarded_core))) = Inr ()
      \<and> getState (snd (setState (returning (VRef 2)) (snd (destroy guarded_core)))) = VRef 2
      \<and> AfterUpdate 7 (VRef 2) (VRef 0)
            \<in> set (trace (snd (setState (returning (VRef 2)) (snd (destroy guarded_core)))))"
    by (simp add: observer_plugin_def failing_plugin_def)
  show ?thesis
    using nt d live g dead by simp
qed

text \<open>
  With an \<open>onDestroy\<close> that throws, \<open>destroy\<close> throws after it has cleared
  the listeners, and the hook of the plugin registered after it is not called.
\<close>

theorem C10_counterexample:
  "map pid (plugins guarded_core) = [8, 7]
   \<and> onDestroy observer_plugin = Some None
   \<and> fst (destroy guarded_core) = Inl (Thrown ''destroy failed'')
   \<and> trace (snd (destroy guarded_core)) = [OnDestroy 8]
   \<and> OnDestroy 7 \<notin> set (trace (snd (destroy guarded_core)))
   \<and> listeners (snd (destroy guarded_core)) = []"
  by code_simp

section \<open>Properties of StoreFull\<close>




lemma chain_split:
  "foldr (\<lambda>mw next. mw next) (pre @ mw # post) base
     = foldr (\<lambda>mw next. mw next) pre (mw (foldr (\<lambda>mw next. mw next) post base))"
  by simp


lemma steps_skip_next:
  "\<not> calls_next steps \<Longrightarrow> run_steps steps next u s = run_steps steps next' u s"
proof (induction steps arbitrary: s)
  case Nil
  show ?case by simp
next
  case (Cons st steps)
  then show ?case by (cases st) simp_all
qed







section \<open>Properties of ReactiveStore\<close>

text \<open>
  Claim C1.  On the store over \<open>{count: 0}\<close> with one listener,
  \<open>setState(s => ({...s, count: 1}))\<close> changes one top-level key and returns
  normally, and the listener has been called twice: once by the set trap of
  the root proxy, through which \<open>setState\<close> writes the key, and once by the
  notification that \<open>hasChanges\<close> guards.
\<close>

theorem C1_setState_one_key_notifies_twice:
  "fst (reactive_setState (spread_with ''count'' (VNum 1)) counter_reactive) = Inr ()
   \<and> map lid (listeners counter_reactive) = [1]
   \<and> fst (getProperty ''count'' counter_reactive) = Inr (VNum 0)
   \<and> fst (getProperty ''count''
            (snd (reactive_setState (spread_with ''count'' (VNum 1)) counter_reactive)))
       = Inr (VNum 1)
   \<and> calls_of 1 (trace counter_reactive) = 0
   \<and> calls_of 1 (trace (snd (reactive_setState (spread_with ''count'' (VNum 1))
                                 counter_reactive))) = 2"
  by code_simp

text \<open>
  Claim C3.  On the store whose root state is the array \<open>[1, 2, 3]\<close>,
  assigning \<open>1\<close> to index \<open>0\<close> through the reactive view calls no listener:
  the set trap of the root proxy compares with \<open>deepEqual\<close> and has no rule
  for numeric keys.  The same assignment on the nested array of
  \<open>{items: [1, 2, 3]}\<close> calls the listener once.
\<close>

theorem C3_root_array_index_assignment_is_deduplicated:
  "js_isArray list_reactive (reactive list_reactive)
   \<and> isNumericIndex ''0''
   \<and> fst (js_get (reactive list_reactive) ''0'' list_reactive) = Inr (VNum 1)
   \<and> fst (js_set (reactive list_reactive) ''0'' (VNum 1) list_reactive) = Inr ()
   \<and> calls_of 1 (trace (snd (js_set (reactive list_reactive) ''0'' (VNum 1) list_reactive))) = 0
   \<and> js_isArray items_read (items_view items_reactive)
   \<and> fst (js_get (items_view items_reactive) ''0'' items_read) = Inr (VNum 1)
   \<and> calls_of 1 (trace (snd (js_set (items_view items_reactive) ''0'' (VNum 1) items_read))) = 1"
  by code_simp

text \<open>
  Claim C4.  On the store whose root state is the array \<open>[1, 2, 3]\<close>,
  \<open>pop()\<close> through the reactive view returns \<open>3\<close> and calls the listener
  twice: the root proxy does not intercept the method, so
  \<open>Array.prototype.pop\<close> runs on the proxy, and both its delete of index
  \<open>2\<close> and its write of \<open>length\<close> notify.  On the nested array of
  \<open>{items: [1, 2, 3]}\<close> the same call notifies once.
\<close>

theorem C4_root_array_pop_notifies_twice:
  "js_isArray list_reactive (reactive list_reactive)
   \<and> fst (call_method (reactive list_reactive) ''pop'' [] list_reactive) = Inr (VNum 3)
   \<and> calls_of 1 (trace (snd (call_method (reactive list_reactive) ''pop'' [] list_reactive))) = 2
   \<and> fst (call_method (items_view items_reactive) ''pop'' [] items_read) = Inr (VNum 3)
   \<and> calls_of 1 (trace (snd (call_method (items_view items_reactive) ''pop'' [] items_read))) = 1"
  by code_simp

lemma new_Proxy_fails_unchanged: "new_Proxy v h s = (Inl e, s') \<Longrightarrow> s' = s"
  by (auto simp: new_Proxy_def alloc_def split: jsval.splits option.splits jsobj.splits if_splits)

lemma makeReactive_returns: "\<exists>r. fst (makeReactive obj s) = Inr r"
  by (auto simp: makeReactive_def split: jsval.splits option.splits prod.splits sum.splits)

lemma createReactiveState_returns: "\<exists>r. fst (createReactiveState st s) = Inr r"
  by (auto simp: createReactiveState_def split: prod.splits sum.splits)

text \<open>
  \<open>new Proxy\<close> wraps every object, whatever its integrity, so the \<open>catch\<close>
  blocks of \<open>makeReactive\<close> and \<open>createReactiveState\<close> are reached only
  for a state that is not an object.
\<close>

lemma new_Proxy_wraps_every_object:
  "obj_at s a = Some ob \<Longrightarrow>
     new_Proxy (VRef a) h s
       = (Inr (VRef (length (heap s))), s\<lparr>heap := heap s @ [ProxyObj a h]\<rparr>)"
  by (simp add: new_Proxy_def alloc_def)

lemma new_Proxy_TypeError:
  "new_Proxy v h s = (Inl TypeError, s') \<Longrightarrow> \<not> typeof_object s v \<or> v = VNull"
  by (auto simp: new_Proxy_def typeof_object_def alloc_def
           split: jsval.splits option.splits prod.splits)

lemma createReactiveState_degrades:
  "new_Proxy st RootHandler s = (Inl TypeError, s') \<Longrightarrow>
     createReactiveState st s
       = (Inr st, console_error ''[ReactiveStore] Failed to create reactive state:'' TypeError s)"
  by (frule new_Proxy_fails_unchanged) (simp add: createReactiveState_def)

lemma makeReactive_plain_unchanged:
  "makeReactive v s = (r, s') \<Longrightarrow> obj_at s t = Some (Plain ob) \<Longrightarrow> obj_at s' t = Some (Plain ob)"
  by (auto simp: makeReactive_def new_Proxy_def alloc_def obj_at_def console_error_def nth_append
           split: if_splits jsval.splits option.splits prod.splits sum.splits)

text \<open>
  A read through a proxy whose target is frozen throws as soon as the value
  read is an object that is not yet reactive: the proxy of the value is
  created and cached, and the write of it back into the target fails.
\<close>

lemma read_through_frozen_throws:
  assumes "obj_at s t = Some (Plain ob)" and "integrity ob = Frozen"
    and "raw_get s t k = Inr v" and "needs_wrap s v = Inr True"
  shows "fst (read_and_wrap t k s) = Inl TypeError"
    and "console (snd (read_and_wrap t k s)) = console s"
proof -
  obtain r s1 where mk: "makeReactive v s = (r, s1)" by (cases "makeReactive v s")
  from makeReactive_returns[of v s] mk obtain rv where r: "r = Inr rv" by auto
  from makeReactive_plain_unchanged[OF mk assms(1)]
  have t1: "obj_at s1 t = Some (Plain ob)" .
  then have st: "raw_set t k rv s1 = (Inl TypeError, s1)"
    using assms(2) by (simp add: raw_set_def)
  from assms(4) have tr: "truthy v \<and> typeof_object s v"
    by (auto simp: needs_wrap_def split: if_splits)
  from assms(4) tr obtain a ov where v: "v = VRef a" "obj_at s a = Some ov"
    by (cases v; cases "obj_at s (case v of VRef x \<Rightarrow> x | _ \<Rightarrow> 0)")
       (auto simp: needs_wrap_def is_reactive_def raw_get_def typeof_object_def
             split: if_splits)
  have co: "console s1 = console s"
    using mk tr v
    by (auto simp: makeReactive_def new_Proxy_wraps_every_object split: option.splits)
  from assms(3,4) mk r st
  show "fst (read_and_wrap t k s) = Inl TypeError"
    by (simp add: read_and_wrap_def)
  from assms(3,4) mk r st co
  show "console (snd (read_and_wrap t k s)) = console s"
    by (simp add: read_and_wrap_def)
qed

text \<open>
  Claim C8.  On the store over \<open>{config: Object.freeze({inner: {}})}\<close>,
  \<open>new Proxy\<close> does not fail on the frozen object: reading \<open>config\<close>
  through the reactive view returns a proxy of it, and nothing is printed.
  Reading \<open>inner\<close> through that proxy then throws a \<open>TypeError\<close> to the
  caller, with nothing printed, where the unwrapped object would have
  returned \<open>{}\<close>.  The same read throws on the store whose root state is the
  frozen object, which the constructor wraps without a warning.
\<close>

theorem C8_read_through_frozen_object_throws:
  "fst (new_Proxy (VRef 1) NestedHandler frozen_reactive) = Inr (VRef 5)
   \<and> config_view frozen_reactive = VRef 5
   \<and> obj_at config_read 5 = Some (ProxyObj 1 NestedHandler)
   \<and> console config_read = []
   \<and> raw_get config_read 1 ''inner'' = Inr (VRef 0)
   \<and> fst (js_get (config_view frozen_reactive) ''inner'' config_read) = Inl TypeError
   \<and> console (snd (js_get (config_view frozen_reactive) ''inner'' config_read)) = []
   \<and> obj_at frozen_root_reactive 3 = Some (ProxyObj 1 RootHandler)
   \<and> reactive frozen_root_reactive = VRef 3
   \<and> console frozen_root_reactive = []
   \<and> fst (getProperty ''inner'' frozen_root_reactive) = Inl TypeError
   \<and> console (snd (getProperty ''inner'' frozen_root_reactive)) = []"
  by code_simp

section \<open>The proxy cache\<close>

lemma obj_at_put_obj:
  "obj_at (put_obj a ob s) p = (if p = a \<and> a < length (heap s) then Some ob else obj_at s p)"
  by (simp add: obj_at_def put_obj_def)

lemma obj_at_alloc:
  "alloc ob s = (p, s') \<Longrightarrow>
     p = length (heap s) \<and> obj_at s p = None \<and> proxyCache s' = proxyCache s
     \<and> (\<forall>q. obj_at s' q = (if q = p then Some ob else obj_at s q))"
  by (auto simp: alloc_def obj_at_def nth_append)

lemma proxyCache_put_obj [simp]: "proxyCache (put_obj a ob s) = proxyCache s"
  by (simp add: put_obj_def)

lemma wraps_kept_refl [simp]: "wraps_kept s s"
  by (simp add: wraps_kept_def)

lemma wraps_kept_trans: "wraps_kept s s1 \<Longrightarrow> wraps_kept s1 s2 \<Longrightarrow> wraps_kept s s2"
  by (simp add: wraps_kept_def)

lemma wraps_kept_same_heap:
  "heap s' = heap s \<Longrightarrow> proxyCache s' = proxyCache s \<Longrightarrow> wraps_kept s s'"
  by (simp add: wraps_kept_def cache_inv_def obj_at_def)

lemma wraps_kept_console_error [simp]: "wraps_kept s (console_error m e s)"
  by (simp add: wraps_kept_same_heap console_error_def)

lemma wraps_kept_put_plain:
  "obj_at s a = Some (Plain ob) \<Longrightarrow> wraps_kept s (put_obj a (Plain ob') s)"
  unfolding wraps_kept_def cache_inv_def
  by (auto simp: obj_at_put_obj)

lemma wraps_kept_alloc:
  assumes "\<not> is_nested_proxy ob" and "alloc ob s = (p, s')"
  shows "wraps_kept s s'"
proof -
  note a = obj_at_alloc[OF assms(2)]
  have "cache_inv s'" if ci: "cache_inv s"
    unfolding cache_inv_def
  proof (intro allI)
    fix t q
    show "(proxyCache s' t = Some q) = (obj_at s' q = Some (ProxyObj t NestedHandler))"
    proof (cases "q = p")
      case True
      with a ci assms(1) show ?thesis
        by (auto simp: cache_inv_def is_nested_proxy_def)
    next
      case False
      with a ci show ?thesis by (simp add: cache_inv_def)
    qed
  qed
  moreover have "\<forall>q t h. obj_at s q = Some (ProxyObj t h) \<longrightarrow> obj_at s' q = Some (ProxyObj t h)"
    using a by auto
  ultimately show ?thesis using a by (simp add: wraps_kept_def)
qed

lemma wraps_kept_alloc_root:
  "alloc (ProxyObj a RootHandler) s = (p, s') \<Longrightarrow> wraps_kept s s'"
  by (rule wraps_kept_alloc) (simp_all add: is_nested_proxy_def)

lemma wraps_kept_alloc_closure:
  "alloc (Closure t f) s = (p, s') \<Longrightarrow> wraps_kept s s'"
  by (rule wraps_kept_alloc) (simp_all add: is_nested_proxy_def)

lemma wraps_kept_alloc_plain:
  "alloc (Plain ob) s = (p, s') \<Longrightarrow> wraps_kept s s'"
  by (rule wraps_kept_alloc) (simp_all add: is_nested_proxy_def)

lemma wraps_kept_new_nested:
  assumes "proxyCache s a = None" and "alloc (ProxyObj a NestedHandler) s = (p, s')"
  shows "wraps_kept s (s'\<lparr>proxyCache := (proxyCache s')(a \<mapsto> p)\<rparr>)"
proof -
  note al = obj_at_alloc[OF assms(2)]
  let ?s = "s'\<lparr>proxyCache := (proxyCache s')(a \<mapsto> p)\<rparr>"
  have ob: "\<And>q. obj_at ?s q = (if q = p then Some (ProxyObj a NestedHandler) else obj_at s q)"
    using al by (simp add: obj_at_def)
  have "cache_inv ?s" if ci: "cache_inv s"
    unfolding cache_inv_def
  proof (intro allI)
    fix t q
    show "(proxyCache ?s t = Some q) = (obj_at ?s q = Some (ProxyObj t NestedHandler))"
    proof (cases "q = p")
      case True
      with al ci ob show ?thesis by (auto simp: cache_inv_def)
    next
      case False
      have na: "obj_at s q \<noteq> Some (ProxyObj a NestedHandler)"
        using ci assms(1) by (metis cache_inv_def option.distinct(1))
      have old: "(proxyCache s t = Some q) = (obj_at s q = Some (ProxyObj t NestedHandler))"
        using ci by (simp add: cache_inv_def)
      show ?thesis
      proof (cases "t = a")
        case True
        with False al ob na show ?thesis by simp
      next
        case ne: False
        with False al ob old show ?thesis by simp
      qed
    qed
  qed
  moreover have "\<forall>q t h. obj_at s q = Some (ProxyObj t h) \<longrightarrow> obj_at ?s q = Some (ProxyObj t h)"
    using al ob by auto
  moreover have "\<forall>t q. proxyCache s t = Some q \<longrightarrow> proxyCache ?s t = Some q"
    using al assms(1) by auto
  ultimately show ?thesis by (simp add: wraps_kept_def)
qed

lemma raw_set_kept: "raw_set a k v s = (r, s') \<Longrightarrow> wraps_kept s s'"
  by (auto simp: raw_set_def wraps_kept_put_plain
           split: option.splits jsobj.splits if_splits jsval.splits)

lemma raw_delete_kept: "raw_delete a k s = (r, s') \<Longrightarrow> wraps_kept s s'"
  by (auto simp: raw_delete_def wraps_kept_put_plain split: option.splits jsobj.splits if_splits)

lemma new_Proxy_root_kept: "new_Proxy v RootHandler s = (r, s') \<Longrightarrow> wraps_kept s s'"
  by (auto simp: new_Proxy_def
           split: option.splits jsobj.splits if_splits jsval.splits prod.splits
           dest: wraps_kept_alloc_root)

lemma createReactiveState_kept: "createReactiveState v s = (r, s') \<Longrightarrow> wraps_kept s s'"
  by (auto simp: createReactiveState_def split: prod.splits sum.splits
           dest!: new_Proxy_root_kept intro: wraps_kept_trans[OF _ wraps_kept_console_error])

lemma makeReactive_kept: "makeReactive v s = (r, s') \<Longrightarrow> wraps_kept s s'"
proof (cases "truthy v \<and> typeof_object s v")
  case False
  then show "makeReactive v s = (r, s') \<Longrightarrow> wraps_kept s s'"
    by (auto simp: makeReactive_def)
next
  case True
  assume m: "makeReactive v s = (r, s')"
  from True obtain a where v: "v = VRef a" by (cases v) (auto simp: typeof_object_def)
  show "wraps_kept s s'"
  proof (cases "proxyCache s a")
    case (Some c)
    with m True v show ?thesis by (simp add: makeReactive_def)
  next
    case None
    show ?thesis
    proof (cases "new_Proxy v NestedHandler s")
      case (Pair rp sp)
      show ?thesis
      proof (cases rp)
        case (Inl e)
        with Pair have "sp = s" by (auto dest: new_Proxy_fails_unchanged)
        with m True v None Pair Inl show ?thesis by (auto simp: makeReactive_def)
      next
        case (Inr pv)
        with Pair v obtain p where pv: "pv = VRef p" and al: "alloc (ProxyObj a NestedHandler) s = (p, sp)"
          by (auto simp: new_Proxy_def split: option.splits jsobj.splits if_splits prod.splits)
        from m True v None Pair Inr pv
        have "s' = sp\<lparr>proxyCache := (proxyCache sp)(a \<mapsto> p)\<rparr>"
          by (auto simp: makeReactive_def)
        with wraps_kept_new_nested[OF None al] show ?thesis by simp
      qed
    qed
  qed
qed

lemma read_and_wrap_kept: "read_and_wrap t k s = (r, s') \<Longrightarrow> wraps_kept s s'"
  unfolding read_and_wrap_def
  by (auto split: sum.splits bool.splits prod.splits
           dest!: makeReactive_kept raw_set_kept intro: wraps_kept_trans)

lemma root_get_kept: "root_get t k s = (r, s') \<Longrightarrow> wraps_kept s s'"
  unfolding root_get_def
  by (auto split: if_splits dest: read_and_wrap_kept)

lemma nested_get_kept: "nested_get t k s = (r, s') \<Longrightarrow> wraps_kept s s'"
  unfolding nested_get_def
  by (auto split: if_splits sum.splits prod.splits
           dest: read_and_wrap_kept wraps_kept_alloc_closure)

lemma js_get_kept: "js_get v k s = (r, s') \<Longrightarrow> wraps_kept s s'"
  unfolding js_get_def
  by (auto split: jsval.splits option.splits jsobj.splits handler.splits
           dest: root_get_kept nested_get_kept)


lemma deepEqual_kept:
  "deepEqual n a b s = (r, s') \<Longrightarrow> wraps_kept s s'"
  "deepEqual_keys n ks kb a b s = (rb, s') \<Longrightarrow> wraps_kept s s'"
  by (rule deepEqual_rel[where R=wraps_kept, OF wraps_kept_refl wraps_kept_trans js_get_kept];
      assumption)+

lemma wraps_kept_trace [simp]: "wraps_kept s (s\<lparr>trace := tr\<rparr>)"
  by (simp add: wraps_kept_same_heap)

lemma call_listeners_kept: "call_listeners ls v s = (r, s') \<Longrightarrow> wraps_kept s s'"
proof (induction ls arbitrary: s)
  case Nil
  then show ?case by simp
next
  case (Cons l ls)
  let ?s1 = "s\<lparr>trace := trace s @ [ListenerCall (lid l) v]\<rparr>"
  have k: "wraps_kept s ?s1" by simp
  show ?case
  proof (cases "lthrows l v")
    case None
    with Cons.prems have "call_listeners ls v ?s1 = (r, s')" by simp
    from wraps_kept_trans[OF k Cons.IH[OF this]] show ?thesis .
  next
    case (Some e)
    with Cons.prems k show ?thesis by auto
  qed
qed

lemma notifyListeners_kept: "notifyListeners s = (r, s') \<Longrightarrow> wraps_kept s s'"
  by (auto simp: notifyListeners_def dest: call_listeners_kept)

lemma wrap_assigned_kept: "wrap_assigned v s = (r, s') \<Longrightarrow> wraps_kept s s'"
  by (auto simp: wrap_assigned_def split: sum.splits bool.splits dest: makeReactive_kept)

lemma notify_unless_equal_kept: "notify_unless_equal ol n s = (r, s') \<Longrightarrow> wraps_kept s s'"
  unfolding notify_unless_equal_def
  by (auto split: prod.splits sum.splits bool.splits
           dest!: deepEqual_kept(1) notifyListeners_kept intro: wraps_kept_trans)

lemma root_set_kept: "root_set t k v s = (r, s') \<Longrightarrow> wraps_kept s s'"
  unfolding root_set_def
  by (auto split: prod.splits sum.splits
           dest!: wrap_assigned_kept raw_set_kept notify_unless_equal_kept
           intro: wraps_kept_trans)

lemma nested_set_kept: "nested_set t k v s = (r, s') \<Longrightarrow> wraps_kept s s'"
  unfolding nested_set_def
  by (auto split: prod.splits sum.splits if_splits
           dest!: wrap_assigned_kept raw_set_kept notify_unless_equal_kept notifyListeners_kept
           intro: wraps_kept_trans)

lemma deleteProperty_kept: "deleteProperty t k s = (r, s') \<Longrightarrow> wraps_kept s s'"
  unfolding deleteProperty_def
  by (auto split: prod.splits sum.splits if_splits
           dest!: raw_delete_kept notifyListeners_kept intro: wraps_kept_trans)

lemma js_set_kept: "js_set v k x s = (r, s') \<Longrightarrow> wraps_kept s s'"
  unfolding js_set_def
  by (auto split: jsval.splits option.splits jsobj.splits handler.splits prod.splits
                  sum.splits if_splits
           dest: root_set_kept nested_set_kept raw_set_kept)

lemma js_delete_kept: "js_delete v k s = (r, s') \<Longrightarrow> wraps_kept s s'"
  unfolding js_delete_def
  by (auto split: jsval.splits option.splits jsobj.splits prod.splits sum.splits if_splits
           dest: deleteProperty_kept raw_delete_kept)


lemma lengthOf_kept: "lengthOf this s = (r, s') \<Longrightarrow> wraps_kept s s'"
  by (auto simp: lengthOf_def split: prod.splits sum.splits dest: js_get_kept)

lemma array_pop_kept: "array_pop this s = (r, s') \<Longrightarrow> wraps_kept s s'"
  unfolding array_pop_def
  by (auto split: prod.splits sum.splits nat.splits
           dest!: lengthOf_kept js_get_kept js_set_kept js_delete_kept
           intro: wraps_kept_trans)

lemma push_items_kept: "push_items this n xs s = (r, s') \<Longrightarrow> wraps_kept s s'"
proof (induction xs arbitrary: n s)
  case Nil
  then show ?case by simp
next
  case (Cons x xs)
  obtain r1 s1 where st: "js_set this (string_of_nat n) x s = (r1, s1)"
    by (cases "js_set this (string_of_nat n) x s")
  then have k: "wraps_kept s s1" by (rule js_set_kept)
  show ?case
  proof (cases r1)
    case (Inl e)
    with Cons.prems st k show ?thesis by simp
  next
    case (Inr u)
    with Cons.prems st have "push_items this (Suc n) xs s1 = (r, s')" by simp
    from wraps_kept_trans[OF k Cons.IH[OF this]] show ?thesis .
  qed
qed

lemma array_push_kept: "array_push this args s = (r, s') \<Longrightarrow> wraps_kept s s'"
  unfolding array_push_def
  by (auto split: prod.splits sum.splits
           dest!: lengthOf_kept push_items_kept js_set_kept intro: wraps_kept_trans)

lemma array_builtin_kept: "array_builtin m this args s = (r, s') \<Longrightarrow> wraps_kept s s'"
  by (cases m) (auto simp: array_builtin_def dest: array_pop_kept array_push_kept)

lemma call_function_kept: "call_function f this args s = (r, s') \<Longrightarrow> wraps_kept s s'"
  unfolding call_function_def
  by (auto split: jsval.splits option.splits jsobj.splits prod.splits sum.splits
           dest!: array_builtin_kept notifyListeners_kept intro: wraps_kept_trans)

lemma call_method_kept: "call_method recv name args s = (r, s') \<Longrightarrow> wraps_kept s s'"
  unfolding call_method_def
  by (auto split: prod.splits sum.splits
           dest!: js_get_kept call_function_kept intro: wraps_kept_trans)

lemma write_changed_keys_kept:
  "write_changed_keys ks newState hc s = (r, s') \<Longrightarrow> wraps_kept s s'"
proof (induction ks arbitrary: hc s)
  case Nil
  then show ?case by simp
next
  case (Cons key ks)
  obtain r1 s1 where g1: "js_get (reactiveState s) key s = (r1, s1)"
    by (cases "js_get (reactiveState s) key s")
  then have k1: "wraps_kept s s1" by (rule js_get_kept)
  show ?case
  proof (cases r1)
    case (Inl e)
    with Cons.prems g1 k1 show ?thesis by simp
  next
    case r1: (Inr oldValue)
    obtain r2 s2 where g2: "js_get newState key s1 = (r2, s2)" by (cases "js_get newState key s1")
    then have k2: "wraps_kept s s2" using k1 by (blast dest: js_get_kept intro: wraps_kept_trans)
    show ?thesis
    proof (cases r2)
      case (Inl e)
      with Cons.prems g1 r1 g2 k2 show ?thesis by simp
    next
      case r2: (Inr newValue)
      obtain r3 s3 where d: "deepEqual (stack_limit s2) oldValue newValue s2 = (r3, s3)"
        by (cases "deepEqual (stack_limit s2) oldValue newValue s2")
      then have k3: "wraps_kept s s3"
        using k2 by (blast dest: deepEqual_kept(1) intro: wraps_kept_trans)
      show ?thesis
      proof (cases r3)
        case (Inl e)
        with Cons.prems g1 r1 g2 r2 d k3 show ?thesis by simp
      next
        case r3: (Inr eq)
        show ?thesis
        proof (cases eq)
          case True
          with Cons.prems g1 r1 g2 r2 d r3
          have "write_changed_keys ks newState hc s3 = (r, s')" by simp
          from wraps_kept_trans[OF k3 Cons.IH[OF this]] show ?thesis .
        next
          case False
          obtain r4 s4 where w: "js_set (reactiveState s3) key newValue s3 = (r4, s4)"
            by (cases "js_set (reactiveState s3) key newValue s3")
          then have k4: "wraps_kept s s4"
            using k3 by (blast dest: js_set_kept intro: wraps_kept_trans)
          show ?thesis
          proof (cases r4)
            case (Inl e)
            with Cons.prems g1 r1 g2 r2 d r3 False w k4 show ?thesis by simp
          next
            case (Inr u)
            with Cons.prems g1 r1 g2 r2 d r3 False w
            have "write_changed_keys ks newState True s4 = (r, s')" by simp
            from wraps_kept_trans[OF k4 Cons.IH[OF this]] show ?thesis .
          qed
        qed
      qed
    qed
  qed
qed

lemma reactive_setState_kept:
  assumes "\<And>v s r s'. updater v s = (r, s') \<Longrightarrow> wraps_kept s s'"
    and "reactive_setState updater s = (r, s')"
  shows "wraps_kept s s'"
proof -
  have body: "wraps_kept s s1" if "reactive_setState_try updater s = (r1, s1)" for r1 s1
    using that unfolding reactive_setState_try_def
    by (auto split: prod.splits sum.splits if_splits
             dest!: assms(1) write_changed_keys_kept notifyListeners_kept
             intro: wraps_kept_trans)
  from assms(2) show ?thesis
    unfolding reactive_setState_def
    by (auto split: prod.splits sum.splits dest!: body
             intro: wraps_kept_trans[OF _ wraps_kept_console_error])
qed


lemma spread_with_kept: "spread_with key x v s = (r, s') \<Longrightarrow> wraps_kept s s'"
proof -
  have ra: "wraps_kept s s1" if "read_all src ks s = (r1, s1)" for src ks r1 s1 s
    using that
  proof (induction ks arbitrary: s r1 s1)
    case Nil
    then show ?case by simp
  next
    case (Cons k ks)
    obtain r2 s2 where g: "js_get src k s = (r2, s2)" by (cases "js_get src k s")
    then have k2: "wraps_kept s s2" by (rule js_get_kept)
    show ?case
    proof (cases r2)
      case (Inl e)
      with Cons.prems g k2 show ?thesis by simp
    next
      case (Inr val)
      obtain r3 s3 where rest: "read_all src ks s2 = (r3, s3)" by (cases "read_all src ks s2")
      from Cons.IH[OF rest] k2 have "wraps_kept s s3" by (rule wraps_kept_trans[rotated])
      with Cons.prems g Inr rest show ?thesis by (auto split: sum.splits)
    qed
  qed
  assume "spread_with key x v s = (r, s')"
  then show ?thesis
    unfolding spread_with_def
    by (auto split: sum.splits prod.splits if_splits
             dest!: ra wraps_kept_alloc_plain intro: wraps_kept_trans)
qed

lemma cache_inv_unique:
  "cache_inv s \<Longrightarrow> obj_at s p = Some (ProxyObj a NestedHandler)
     \<Longrightarrow> obj_at s q = Some (ProxyObj a NestedHandler) \<Longrightarrow> p = q"
  by (metis cache_inv_def option.inject)

lemma cache_inv_constructed:
  assumes "list_all (\<lambda>ob. \<not> is_nested_proxy ob) h"
  shows "cache_inv (snd (new_ReactiveStore h d st))"
proof -
  let ?s0 = "\<lparr>heap = h @ [StoreObj], self = length h, state = st, listeners = [],
        plugins = [], reactiveState = VUndef, proxyCache = Map.empty, trace = [],
        console = [], stack_limit = d\<rparr>"
  have "\<not> is_nested_proxy ob" if "ob \<in> set (h @ [StoreObj])" for ob
    using that assms by (auto simp: list_all_iff is_nested_proxy_def)
  then have nn: "\<not> is_nested_proxy ((h @ [StoreObj]) ! p)" if "p < length (h @ [StoreObj])" for p
    using that nth_mem by blast
  have "obj_at ?s0 p \<noteq> Some (ProxyObj a NestedHandler)" for p a
  proof
    assume "obj_at ?s0 p = Some (ProxyObj a NestedHandler)"
    then have "p < length (h @ [StoreObj])" "(h @ [StoreObj]) ! p = ProxyObj a NestedHandler"
      by (auto simp: obj_at_def split: if_splits)
    with nn[of p] show False by (simp add: is_nested_proxy_def)
  qed
  then have c0: "cache_inv ?s0" by (simp add: cache_inv_def)
  obtain r1 s1 where cr: "createReactiveState st ?s0 = (r1, s1)"
    by (cases "createReactiveState st ?s0")
  from createReactiveState_kept[OF cr] c0 have c1: "cache_inv s1" by (simp add: wraps_kept_def)
  from createReactiveState_returns[of st ?s0] cr obtain rv where "r1 = Inr rv" by auto
  with cr have "snd (new_ReactiveStore h d st) = s1\<lparr>reactiveState := rv\<rparr>"
    by (simp add: new_ReactiveStore_def new_StoreCore_def)
  with c1 show ?thesis by (simp add: cache_inv_def)
qed

lemma makeReactive_cached:
  "proxyCache s a = Some p \<Longrightarrow> typeof_object s (VRef a)
     \<Longrightarrow> makeReactive (VRef a) s = (Inr (VRef p), s)"
  by (simp add: makeReactive_def)

lemma makeReactive_enters_cache:
  assumes "makeReactive (VRef a) s = (Inr (VRef p), s1)" and "p \<noteq> a"
  shows "proxyCache s1 a = Some p \<and> typeof_object s1 (VRef a)"
proof -
  from assms have ty: "typeof_object s (VRef a)"
    by (auto simp: makeReactive_def split: if_splits)
  show ?thesis
  proof (cases "proxyCache s a")
    case (Some c)
    with assms ty show ?thesis by (simp add: makeReactive_def)
  next
    case None
    with assms ty obtain sp where np: "new_Proxy (VRef a) NestedHandler s = (Inr (VRef p), sp)"
      and s1: "s1 = sp\<lparr>proxyCache := (proxyCache sp)(a \<mapsto> p)\<rparr>"
      by (auto simp: makeReactive_def split: prod.splits sum.splits jsval.splits)
    from np obtain ob where "obj_at s a = Some ob" and al: "alloc (ProxyObj a NestedHandler) s = (p, sp)"
      by (auto simp: new_Proxy_def split: option.splits jsobj.splits if_splits prod.splits)
    with obj_at_alloc[OF al] ty have "obj_at sp a = obj_at s a"
      by auto
    with ty s1 show ?thesis by (simp add: typeof_object_def)
  qed
qed

lemma makeReactive_twice:
  assumes "makeReactive (VRef a) s = (Inr (VRef p), s1)" and "p \<noteq> a"
  shows "makeReactive (VRef a) s1 = (Inr (VRef p), s1)"
  using makeReactive_enters_cache[OF assms] by (simp add: makeReactive_cached)

lemma raw_set_target:
  "raw_set t k v s = (Inr (), s') \<Longrightarrow> \<exists>ob. obj_at s t = Some (Plain ob)"
  by (auto simp: raw_set_def split: option.splits jsobj.splits)

lemma raw_get_after_set:
  assumes "raw_set t k v s = (Inr (), s')"
  shows "raw_get s' t k = Inr v"
proof -
  from raw_set_target[OF assms] obtain ob where ob: "obj_at s t = Some (Plain ob)" by blast
  then have lt: "t < length (heap s)" by (simp add: obj_at_def split: if_splits)
  show ?thesis
  proof (cases "is_array ob \<and> k = ''length''")
    case True
    with assms ob obtain n where "v = VNum n" "0 \<le> n"
      "s' = put_obj t (Plain (ob\<lparr>len := nat n, props := keep_below (nat n) (props ob)\<rparr>)) s"
      by (auto simp: raw_set_def split: jsval.splits if_splits)
    with True lt show ?thesis by (simp add: raw_get_def obj_at_put_obj)
  next
    case False
    with assms ob obtain ob' where
      "s' = put_obj t (Plain ob') s" "props ob' = AList.update k v (props ob)"
      "is_array ob' = is_array ob"
      by (auto simp: raw_set_def split: option.splits if_splits)
    with False lt show ?thesis by (auto simp: raw_get_def obj_at_put_obj update_conv')
  qed
qed

lemma obj_at_kept_raw_set:
  "raw_set t k v s = (r, s') \<Longrightarrow> obj_at s p = Some (ProxyObj a h) \<Longrightarrow> obj_at s' p = Some (ProxyObj a h)"
  by (drule raw_set_kept) (simp add: wraps_kept_def)

lemma raw_isArray_raw_set: "raw_set t k v s = (r, s') \<Longrightarrow> raw_isArray s' a = raw_isArray s a"
  by (auto simp: raw_set_def raw_isArray_def obj_at_put_obj
           split: option.splits jsobj.splits if_splits jsval.splits)

lemma raw_isArray_makeReactive:
  "makeReactive v s = (r, s') \<Longrightarrow> raw_isArray s' a = raw_isArray s a"
  by (auto simp: makeReactive_def new_Proxy_def alloc_def raw_isArray_def obj_at_def
                 console_error_def nth_append
           split: option.splits jsobj.splits if_splits jsval.splits prod.splits sum.splits)

lemma raw_isArray_read_and_wrap:
  "read_and_wrap t k s = (r, s') \<Longrightarrow> raw_isArray s' a = raw_isArray s a"
  unfolding read_and_wrap_def
  by (auto split: sum.splits bool.splits prod.splits
           dest!: raw_isArray_makeReactive[where a=a] raw_isArray_raw_set[where a=a])

lemma read_and_wrap_again:
  assumes "read_and_wrap t k s = (Inr (VRef p), s1)" and "obj_at s1 p = Some (ProxyObj t' h')"
  shows "read_and_wrap t k s1 = (Inr (VRef p), s1)"
proof -
  have nw: "needs_wrap s1 (VRef p) = Inr False"
    using assms(2) by (simp add: needs_wrap_def typeof_object_def is_reactive_def)
  from assms(1) obtain x where rg: "raw_get s t k = Inr x"
    by (auto simp: read_and_wrap_def split: sum.splits)
  from assms(1) rg obtain b where nb: "needs_wrap s x = Inr b"
    by (auto simp: read_and_wrap_def split: sum.splits)
  show ?thesis
  proof (cases b)
    case False
    with assms(1) rg nb have "s1 = s" "x = VRef p" by (auto simp: read_and_wrap_def)
    with rg nw show ?thesis by (simp add: read_and_wrap_def)
  next
    case True
    with assms(1) rg nb obtain s' where "raw_set t k (VRef p) s' = (Inr (), s1)"
      by (auto simp: read_and_wrap_def split: sum.splits prod.splits)
    then have "raw_get s1 t k = Inr (VRef p)" by (rule raw_get_after_set)
    with nw show ?thesis by (simp add: read_and_wrap_def)
  qed
qed

lemma js_get_again:
  assumes pr: "obj_at s v = Some (ProxyObj t h)"
    and g: "js_get (VRef v) k s = (Inr (VRef p), s1)"
    and px: "obj_at s1 p = Some (ProxyObj t' h')"
  shows "js_get (VRef v) k s1 = (Inr (VRef p), s1)"
proof -
  from js_get_kept[OF g] pr have pr1: "obj_at s1 v = Some (ProxyObj t h)"
    by (simp add: wraps_kept_def)
  from js_get_same[OF g] have sf: "self s1 = self s" by (simp add: same_core_def)
  show ?thesis
  proof (cases h)
    case RootHandler
    with pr g have rg: "root_get t k s = (Inr (VRef p), s1)" by (simp add: js_get_def)
    have "root_get t k s1 = (Inr (VRef p), s1)"
    proof (cases "k = ''__isReactive'' \<or> k = ''__store''")
      case True
      with rg sf show ?thesis by (auto simp: root_get_def split: if_splits)
    next
      case False
      with rg have "read_and_wrap t k s = (Inr (VRef p), s1)" by (simp add: root_get_def)
      from read_and_wrap_again[OF this px] False show ?thesis by (simp add: root_get_def)
    qed
    with RootHandler pr1 show ?thesis by (simp add: js_get_def)
  next
    case NestedHandler
    with pr g have ng: "nested_get t k s = (Inr (VRef p), s1)" by (simp add: js_get_def)
    have "nested_get t k s1 = (Inr (VRef p), s1)"
    proof (cases "k = ''__isReactive''")
      case True
      with ng show ?thesis by (simp add: nested_get_def)
    next
      case nr: False
      show ?thesis
      proof (cases "raw_isArray s t \<and> is_method k")
        case True
        with ng nr obtain f where "alloc (Closure t f) s = (p, s1)"
          by (auto simp: nested_get_def split: sum.splits prod.splits)
        from obj_at_alloc[OF this] px show ?thesis by simp
      next
        case False
        with ng nr have rw: "read_and_wrap t k s = (Inr (VRef p), s1)"
          by (simp add: nested_get_def)
        from raw_isArray_read_and_wrap[OF rw, of t] False
        have "\<not> (raw_isArray s1 t \<and> is_method k)" by simp
        with read_and_wrap_again[OF rw px] nr show ?thesis by (auto simp: nested_get_def)
      qed
    qed
    with NestedHandler pr1 show ?thesis by (simp add: js_get_def)
  qed
qed


text \<open>
  Claim C2, as the code has it.  The proxies that \<open>makeReactive\<close> creates
  are canonical: the cache is exact after construction and every operation
  of the reactive view keeps it exact, so no object has two proxies with the
  nested handler; no cache entry and no proxy is ever removed or replaced;
  wrapping an object that has a cache entry returns the cached proxy and
  changes nothing; and a read through a proxy that returned a proxy returns
  the same proxy when repeated.  The root proxy of \<open>createReactiveState\<close>
  is not entered in the cache, and the statement says nothing about it.
\<close>

theorem C2_on_demand_proxies_are_canonical:
  "(cache_inv s \<and> obj_at s p = Some (ProxyObj a NestedHandler)
      \<and> obj_at s q = Some (ProxyObj a NestedHandler) \<longrightarrow> p = q)
   \<and> (list_all (\<lambda>ob. \<not> is_nested_proxy ob) h \<longrightarrow> cache_inv (snd (new_ReactiveStore h d st)))
   \<and> wraps_kept s (snd (js_get v k s))
   \<and> wraps_kept s (snd (js_set v k x s))
   \<and> wraps_kept s (snd (js_delete v k s))
   \<and> wraps_kept s (snd (call_method v k args s))
   \<and> wraps_kept s (snd (spread_with k x v s))
   \<and> ((\<forall>u s0. wraps_kept s0 (snd (updater u s0)))
        \<longrightarrow> wraps_kept s (snd (reactive_setState updater s)))
   \<and> (proxyCache s a = Some p \<and> typeof_object s (VRef a)
        \<longrightarrow> makeReactive (VRef a) s = (Inr (VRef p), s))
   \<and> (makeReactive (VRef a) s = (Inr (VRef p), s1) \<and> p \<noteq> a
        \<longrightarrow> makeReactive (VRef a) s1 = (Inr (VRef p), s1))
   \<and> (obj_at s w = Some (ProxyObj t hw) \<and> js_get (VRef w) k s = (Inr (VRef p), s1)
      \<and> obj_at s1 p = Some (ProxyObj t' hp)
        \<longrightarrow> js_get (VRef w) k s1 = (Inr (VRef p), s1))"
proof -
  have c1: "cache_inv s \<and> obj_at s p = Some (ProxyObj a NestedHandler)
      \<and> obj_at s q = Some (ProxyObj a NestedHandler) \<longrightarrow> p = q"
    by (blast dest: cache_inv_unique)
  have c2: "list_all (\<lambda>ob. \<not> is_nested_proxy ob) h \<longrightarrow> cache_inv (snd (new_ReactiveStore h d st))"
    by (simp add: cache_inv_constructed)
  have c3: "wraps_kept s (snd (js_get v k s))"
    by (rule js_get_kept[of v k s "fst (js_get v k s)"]) simp
  have c4: "wraps_kept s (snd (js_set v k x s))"
    by (rule js_set_kept[of v k x s "fst (js_set v k x s)"]) simp
  have c5: "wraps_kept s (snd (js_delete v k s))"
    by (rule js_delete_kept[of v k s "fst (js_delete v k s)"]) simp
  have c6: "wraps_kept s (snd (call_method v k args s))"
    by (rule call_method_kept[of v k args s "fst (call_method v k args s)"]) simp
  have c7: "wraps_kept s (snd (spread_with k x v s))"
    by (rule spread_with_kept[of k x v s "fst (spread_with k x v s)"]) simp
  have c8: "(\<forall>u s0. wraps_kept s0 (snd (updater u s0)))
        \<longrightarrow> wraps_kept s (snd (reactive_setState updater s))"
  proof
    assume u: "\<forall>u s0. wraps_kept s0 (snd (updater u s0))"
    have st: "wraps_kept s0 s0'" if "updater u s0 = (r0, s0')" for u s0 r0 s0'
      using u that by (metis snd_conv)
    have pc: "reactive_setState updater s
                = (fst (reactive_setState updater s), snd (reactive_setState updater s))"
      by simp
    show "wraps_kept s (snd (reactive_setState updater s))"
      by (rule reactive_setState_kept[where updater=updater, OF st pc])
  qed
  have c9: "proxyCache s a = Some p \<and> typeof_object s (VRef a)
        \<longrightarrow> makeReactive (VRef a) s = (Inr (VRef p), s)"
    by (simp add: makeReactive_cached)
  have c10: "makeReactive (VRef a) s = (Inr (VRef p), s1) \<and> p \<noteq> a
        \<longrightarrow> makeReactive (VRef a) s1 = (Inr (VRef p), s1)"
    by (blast intro: makeReactive_twice)
  have c11: "obj_at s w = Some (ProxyObj t hw) \<and> js_get (VRef w) k s = (Inr (VRef p), s1)
      \<and> obj_at s1 p = Some (ProxyObj t' hp)
        \<longrightarrow> js_get (VRef w) k s1 = (Inr (VRef p), s1)"
    by (blast intro: js_get_again)
  show ?thesis by (intro conjI c1 c2 c3 c4 c5 c6 c7 c8 c9 c10 c11)
qed

theorem C2_witness:
  "list_all (\<lambda>ob. \<not> is_nested_proxy ob)
      [array_object [VNum 1, VNum 2, VNum 3], plain_object [(''items'', VRef 0)]]
   \<and> cache_inv (snd (new_ReactiveStore
                        [array_object [VNum 1, VNum 2, VNum 3], plain_object [(''items'', VRef 0)]]
                        16 (VRef 1)))
   \<and> obj_at items_reactive 3 = Some (ProxyObj 1 RootHandler)
   \<and> js_get (VRef 3) ''items'' items_reactive = (Inr (VRef 4), items_read)
   \<and> obj_at items_read 4 = Some (ProxyObj 0 NestedHandler)
   \<and> js_get (VRef 3) ''items'' items_read = (Inr (VRef 4), items_read)
   \<and> wraps_kept items_reactive items_read"
proof -
  let ?h = "[array_object [VNum 1, VNum 2, VNum 3], plain_object [(''items'', VRef 0)]]"
  have h: "list_all (\<lambda>ob. \<not> is_nested_proxy ob) ?h"
    by (simp add: is_nested_proxy_def array_object_def plain_object_def)
  have o3: "obj_at items_reactive 3 = Some (ProxyObj 1 RootHandler)" by code_simp
  have r: "reactiveState items_reactive = VRef 3" by code_simp
  have f: "fst (js_get (VRef 3) ''items'' items_reactive) = Inr (VRef 4)" by code_simp
  have sn: "snd (js_get (VRef 3) ''items'' items_reactive) = items_read"
    by (simp add: items_read_def getProperty_def r)
  have g: "js_get (VRef 3) ''items'' items_reactive = (Inr (VRef 4), items_read)"
    using f sn by (simp add: prod_eq_iff)
  have o4: "obj_at items_read 4 = Some (ProxyObj 0 NestedHandler)" by code_simp
  note c2 = C2_on_demand_proxies_are_canonical[where h="?h" and d=16 and st="VRef 1"
              and s=items_reactive and w=3 and t=1 and hw=RootHandler and k="''items''"
              and p=4 and ?s1.0=items_read and t'=0 and hp=NestedHandler and v="VRef 3"]
  from c2 h have ci: "cache_inv (snd (new_ReactiveStore ?h 16 (VRef 1)))" by blast
  from c2 o3 g o4 have again: "js_get (VRef 3) ''items'' items_read = (Inr (VRef 4), items_read)"
    by blast
  from c2 have "wraps_kept items_reactive (snd (js_get (VRef 3) ''items'' items_reactive))"
    by blast
  with sn have wk: "wraps_kept items_reactive items_read" by simp
  from h ci o3 g o4 again wk show ?thesis by blast
qed

text \<open>
  The claim as stated fails for the root state object.  After
  \<open>store.setProperty('me', initialState)\<close> the heap holds two proxies of the
  object at address 0: the root proxy at address 2, which is the reactive
  view, and the proxy at address 3 that \<open>makeReactive\<close> created and that a
  read of \<open>me\<close> through the view returns.
\<close>

theorem C2_counterexample:
  "state self_reference = VRef 0
   \<and> reactive self_reference = VRef 2
   \<and> obj_at self_reference 2 = Some (ProxyObj 0 RootHandler)
   \<and> obj_at self_reference 3 = Some (ProxyObj 0 NestedHandler)
   \<and> fst (getProperty ''me'' self_reference) = Inr (VRef 3)
   \<and> fst (getProperty ''me'' (snd (getProperty ''me'' self_reference))) = Inr (VRef 3)
   \<and> VRef 3 \<noteq> reactive self_reference"
  by code_simp

section \<open>The nested traps on arrays\<close>

lemma call_listeners_trace:
  "call_listeners ls v s = (Inr u, s') \<Longrightarrow>
     trace s' = trace s @ listener_events ls v \<and> heap s' = heap s \<and> state s' = state s
     \<and> listeners s' = listeners s"
proof (induction ls arbitrary: s)
  case Nil
  then show ?case by (simp add: listener_events_def)
next
  case (Cons l ls)
  show ?case
  proof (cases "lthrows l v")
    case None
    with Cons.prems
    have "call_listeners ls v (s\<lparr>trace := trace s @ [ListenerCall (lid l) v]\<rparr>) = (Inr u, s')"
      by simp
    from Cons.IH[OF this] show ?thesis by (simp add: listener_events_def)
  next
    case (Some e)
    with Cons.prems show ?thesis by simp
  qed
qed

lemma notifyListeners_trace:
  "notifyListeners s = (Inr u, s') \<Longrightarrow>
     trace s' = trace s @ listener_events (listeners s) (state s)"
  by (auto simp: notifyListeners_def dest: call_listeners_trace)

lemma wrap_assigned_same: "wrap_assigned v s = (r, s') \<Longrightarrow> same_core s s'"
  by (auto simp: wrap_assigned_def split: sum.splits bool.splits dest: makeReactive_same)

text \<open>
  On an array wrapped by \<open>makeReactive\<close>, an assignment to a numeric key
  that returns has called every listener once, whatever the old and the new
  value are.
\<close>

lemma nested_set_numeric_index_notifies:
  assumes "raw_isArray s t" and "isNumericIndex prop"
    and "nested_set t prop v s = (Inr ok, s')"
  shows "trace s' = trace s @ listener_events (listeners s) (state s)"
proof -
  from assms(3) obtain ol where rg: "raw_get s t prop = Inr ol"
    by (auto simp: nested_set_def split: sum.splits)
  from assms(3) rg obtain rv s1 where wa: "wrap_assigned v s = (Inr rv, s1)"
    by (auto simp: nested_set_def split: sum.splits prod.splits)
  from assms(3) rg wa obtain s2 where rs: "raw_set t prop rv s1 = (Inr (), s2)"
    by (auto simp: nested_set_def split: sum.splits prod.splits)
  from assms rg wa rs obtain u where nl: "notifyListeners s2 = (Inr u, s')"
    by (auto simp: nested_set_def split: sum.splits prod.splits)
  from wrap_assigned_same[OF wa] raw_set_same[OF rs] have "same_core s s2"
    by (rule same_core_trans)
  with notifyListeners_trace[OF nl] show ?thesis by (simp add: same_core_def)
qed

lemma digit_not_space: "is_digit c \<Longrightarrow> \<not> is_space c"
  by (auto simp: is_digit_def is_space_def)

lemma digit_not_mark:
  "is_digit c \<Longrightarrow> c \<noteq> CHR ''+'' \<and> c \<noteq> CHR ''-'' \<and> c \<noteq> CHR ''.'' \<and> \<not> is_exp_mark c \<and> c \<noteq> CHR ''N''"
  by (auto simp: is_digit_def is_exp_mark_def)


lemma dropWhile_all_not: "list_all (\<lambda>c. \<not> P c) xs \<Longrightarrow> dropWhile P xs = xs"
  by (cases xs) simp_all

lemma digits_trim:
  assumes "list_all is_digit ds"
  shows "trim ds = ds"
proof -
  have a: "list_all (\<lambda>c. \<not> is_space c) ds"
    using assms by (simp add: list_all_iff digit_not_space)
  then have b: "list_all (\<lambda>c. \<not> is_space c) (rev ds)" by (simp add: list_all_iff)
  show ?thesis by (simp add: trim_def dropWhile_all_not[OF a] dropWhile_all_not[OF b])
qed

lemma digits_strip_sign:
  assumes "list_all is_digit ds"
  shows "strip_sign ds = ds"
proof (cases ds)
  case Nil
  then show ?thesis by (simp add: strip_sign_def)
next
  case (Cons c cs)
  with assms have "is_digit c" by simp
  from digit_not_mark[OF this] Cons show ?thesis by (simp add: strip_sign_def)
qed

lemma digits_no_mark:
  assumes "list_all is_digit ds"
  shows "dropWhile (\<lambda>c. \<not> is_exp_mark c) ds = []" and "dropWhile (\<lambda>c. c \<noteq> CHR ''.'') ds = []"
proof -
  have "\<forall>c\<in>set ds. is_digit c" using assms by (simp add: list_all_iff)
  then have "\<forall>c\<in>set ds. \<not> is_exp_mark c" "\<forall>c\<in>set ds. c \<noteq> CHR ''.''"
    using digit_not_mark by blast+
  then show "dropWhile (\<lambda>c. \<not> is_exp_mark c) ds = []" "dropWhile (\<lambda>c. c \<noteq> CHR ''.'') ds = []"
    by simp_all
qed

lemma is_digits_numeric:
  assumes "is_digits ds"
  shows "isNumericIndex ds"
proof -
  from assms have ne: "ds \<noteq> []" and dg: "list_all is_digit ds" by (simp_all add: is_digits_def)
  have "is_mantissa ds" using assms by (simp add: is_mantissa_def digits_no_mark(2)[OF dg])
  then have ud: "is_unsigned_decimal ds"
    by (simp add: is_unsigned_decimal_def digits_no_mark(1)[OF dg])
  have "\<not> is_digit CHR ''N''" using digit_not_mark[of "CHR ''N''"] by blast
  with dg have nn: "ds \<noteq> ''NaN''" by auto
  from ud nn show ?thesis
    by (simp add: isNumericIndex_def Number_isNaN_def digits_trim[OF dg] digits_strip_sign[OF dg])
qed

text \<open>Every array index is a numeric key in the sense of the nested set trap.\<close>

lemma index_key_is_numeric: "index_of_key k = Some i \<Longrightarrow> isNumericIndex k"
  by (rule is_digits_numeric) (auto simp: index_of_key_def is_digits_def split: if_splits)

lemma plain_stays_plain:
  assumes "obj_at s t = Some (Plain ob)"
  shows "raw_set a k x s = (r, s') \<Longrightarrow> \<exists>ob'. obj_at s' t = Some (Plain ob')"
    and "raw_delete a k s = (rd, s') \<Longrightarrow> \<exists>ob'. obj_at s' t = Some (Plain ob')"
  using assms
  by (auto simp: raw_set_def raw_delete_def obj_at_put_obj
           split: option.splits jsobj.splits if_splits jsval.splits)

lemma js_ops_on_plain:
  assumes "obj_at s t = Some (Plain ob)"
  shows "js_get (VRef t) k s = (raw_get s t k, s)"
    and "js_set (VRef t) k x s = raw_set t k x s"
    and "js_delete (VRef t) k s = (r, s') \<Longrightarrow> same_core s s' \<and> (\<exists>ob'. obj_at s' t = Some (Plain ob'))"
  using assms
  by (auto simp: js_get_def js_set_def js_delete_def
           split: prod.splits sum.splits if_splits
           dest: raw_delete_same plain_stays_plain(2))

lemma array_pop_on_target_silent:
  assumes "obj_at s t = Some (Plain ob)" and "array_pop (VRef t) s = (r, s')"
  shows "same_core s s'"
proof -
  have lo: "lengthOf (VRef t) s = (case raw_get s t ''length'' of Inl e \<Rightarrow> Inl e | Inr v \<Rightarrow> toLength v, s)"
    using assms(1) by (simp add: lengthOf_def js_ops_on_plain(1) split: sum.splits)
  show ?thesis
  proof (cases "case raw_get s t ''length'' of Inl e \<Rightarrow> Inl e | Inr v \<Rightarrow> toLength v")
    case (Inl e)
    with assms(2) lo show ?thesis by (simp add: array_pop_def)
  next
    case (Inr n)
    show ?thesis
    proof (cases n)
      case 0
      with assms lo Inr show ?thesis
        by (auto simp: array_pop_def js_ops_on_plain(2) split: prod.splits sum.splits
                 dest: raw_set_same)
    next
      case (Suc m)
      obtain rd s3 where dl: "js_delete (VRef t) (string_of_nat m) s = (rd, s3)"
        by (cases "js_delete (VRef t) (string_of_nat m) s")
      from js_ops_on_plain(3)[OF assms(1) dl]
      obtain ob' where c3: "same_core s s3" and p3: "obj_at s3 t = Some (Plain ob')" by blast
      from assms lo Inr Suc dl c3 p3 show ?thesis
        by (auto simp: array_pop_def js_ops_on_plain(1,2) split: prod.splits sum.splits
                 dest!: raw_set_same intro: same_core_trans)
    qed
  qed
qed

lemma push_items_on_target_silent:
  "obj_at s t = Some (Plain ob) \<Longrightarrow> push_items (VRef t) n xs s = (r, s')
     \<Longrightarrow> same_core s s' \<and> (\<exists>ob'. obj_at s' t = Some (Plain ob'))"
proof (induction xs arbitrary: n s ob)
  case Nil
  then show ?case by simp
next
  case (Cons x xs)
  obtain r1 s1 where st: "raw_set t (string_of_nat n) x s = (r1, s1)"
    by (cases "raw_set t (string_of_nat n) x s")
  from raw_set_same[OF st] have c1: "same_core s s1" .
  from plain_stays_plain(1)[OF Cons.prems(1) st] obtain ob1 where p1: "obj_at s1 t = Some (Plain ob1)"
    by blast
  show ?case
  proof (cases r1)
    case (Inl e)
    with Cons.prems st c1 p1 show ?thesis by (simp add: js_ops_on_plain(2))
  next
    case (Inr u)
    with Cons.prems st have "push_items (VRef t) (Suc n) xs s1 = (r, s')"
      by (simp add: js_ops_on_plain(2))
    from Cons.IH[OF p1 this] c1 show ?thesis by (blast intro: same_core_trans)
  qed
qed

lemma array_push_on_target_silent:
  assumes "obj_at s t = Some (Plain ob)" and "array_push (VRef t) args s = (r, s')"
  shows "same_core s s'"
proof -
  have lo: "lengthOf (VRef t) s = (case raw_get s t ''length'' of Inl e \<Rightarrow> Inl e | Inr v \<Rightarrow> toLength v, s)"
    using assms(1) by (simp add: lengthOf_def js_ops_on_plain(1) split: sum.splits)
  show ?thesis
  proof (cases "case raw_get s t ''length'' of Inl e \<Rightarrow> Inl e | Inr v \<Rightarrow> toLength v")
    case (Inl e)
    with assms(2) lo show ?thesis by (simp add: array_push_def)
  next
    case (Inr n)
    obtain r2 s2 where pi: "push_items (VRef t) n args s = (r2, s2)"
      by (cases "push_items (VRef t) n args s")
    from push_items_on_target_silent[OF assms(1) pi]
    obtain ob2 where c2: "same_core s s2" and p2: "obj_at s2 t = Some (Plain ob2)" by blast
    from assms(2) lo Inr pi c2 p2 show ?thesis
      by (auto simp: array_push_def js_ops_on_plain(2) split: prod.splits sum.splits
               dest!: raw_set_same intro: same_core_trans)
  qed
qed

text \<open>
  The function that the nested get trap returns for \<open>pop\<close> and \<open>push\<close> on
  an array runs the method on the target, where no trap is involved, and
  then notifies: when it returns, every listener has been called once.
\<close>

lemma intercepted_method_notifies_once:
  assumes "obj_at s f = Some (Closure t (VBuiltin m))" and "obj_at s t = Some (Plain ob)"
    and "call_function (VRef f) this args s = (Inr res, s')"
  shows "trace s' = trace s @ listener_events (listeners s) (state s)"
proof -
  from assms(1,3) obtain s1 u where ab: "array_builtin m (VRef t) args s = (Inr res, s1)"
    and nl: "notifyListeners s1 = (Inr u, s')"
    by (auto simp: call_function_def split: prod.splits sum.splits)
  have "same_core s s1"
    using ab assms(2)
    by (cases m) (auto simp: array_builtin_def
                       dest: array_pop_on_target_silent array_push_on_target_silent)
  with notifyListeners_trace[OF nl] show ?thesis by (simp add: same_core_def)
qed

end
